theory Spec2Isabelle
  imports Main "HOL-Library.Word" "HOL-Library.Monad_Syntax"
begin

unbundle bit_operations_syntax

section \<open>Threshold secret sharing over GF(256): the model of tss.go\<close>

subsection \<open>Constants, types and errors\<close>

type_synonym byte = "8 word"

text \<open>\<^verbatim>\<open>type Share []byte\<close> and \<^verbatim>\<open>type ShareSet []Share\<close>.\<close>

type_synonym Share = "byte list"
type_synonym ShareSet = "Share list"

definition MinSecretBytes :: nat where "MinSecretBytes = 32"
definition MaxSecretBytes :: nat where "MaxSecretBytes = 65534"
definition MaxShareBytes :: nat where "MaxShareBytes = MaxSecretBytes + 1"
definition MinShareBytes :: nat where "MinShareBytes = MinSecretBytes + 1"
definition MinShares :: int where "MinShares = 2"
definition MaxShares :: int where "MaxShares = 255"

text \<open>
  The error values of the package. \<open>ErrRandRead\<close> stands for whatever error
  \<^verbatim>\<open>rand.Read\<close> hands back; \<^verbatim>\<open>CreateShares\<close> returns it unchanged.
\<close>

datatype error =
    ErrTooFewShares
  | ErrSecretRequired
  | ErrSecretTooShort
  | ErrSecretTooLarge
  | ErrTooManyShares
  | ErrInvalidThreshold
  | ErrInvalidShare
  | ErrRandRead

text \<open>
  What a call of an exported function does: it panics (a Go run-time panic: an index out
  of range, a negative length given to \<^verbatim>\<open>make\<close>), or it returns its pair, an error
  (\<open>Inl\<close>) or a value with a nil error (\<open>Inr\<close>).
\<close>

datatype 'a outcome = Panics | Returns "error + 'a"

subsection \<open>The tables\<close>

text \<open>\<^verbatim>\<open>var expOp = [...]byte{...}\<close>: the powers of the generator 3, written twice.\<close>

definition expOp :: "byte list" where
  "expOp = [
  0x01, 0x03, 0x05, 0x0f, 0x11, 0x33, 0x55, 0xff, 0x1a, 0x2e, 0x72, 0x96, 0xa1, 0xf8, 0x13, 0x35,
  0x5f, 0xe1, 0x38, 0x48, 0xd8, 0x73, 0x95, 0xa4, 0xf7, 0x02, 0x06, 0x0a, 0x1e, 0x22, 0x66, 0xaa,
  0xe5, 0x34, 0x5c, 0xe4, 0x37, 0x59, 0xeb, 0x26, 0x6a, 0xbe, 0xd9, 0x70, 0x90, 0xab, 0xe6, 0x31,
  0x53, 0xf5, 0x04, 0x0c, 0x14, 0x3c, 0x44, 0xcc, 0x4f, 0xd1, 0x68, 0xb8, 0xd3, 0x6e, 0xb2, 0xcd,
  0x4c, 0xd4, 0x67, 0xa9, 0xe0, 0x3b, 0x4d, 0xd7, 0x62, 0xa6, 0xf1, 0x08, 0x18, 0x28, 0x78, 0x88,
  0x83, 0x9e, 0xb9, 0xd0, 0x6b, 0xbd, 0xdc, 0x7f, 0x81, 0x98, 0xb3, 0xce, 0x49, 0xdb, 0x76, 0x9a,
  0xb5, 0xc4, 0x57, 0xf9, 0x10, 0x30, 0x50, 0xf0, 0x0b, 0x1d, 0x27, 0x69, 0xbb, 0xd6, 0x61, 0xa3,
  0xfe, 0x19, 0x2b, 0x7d, 0x87, 0x92, 0xad, 0xec, 0x2f, 0x71, 0x93, 0xae, 0xe9, 0x20, 0x60, 0xa0,
  0xfb, 0x16, 0x3a, 0x4e, 0xd2, 0x6d, 0xb7, 0xc2, 0x5d, 0xe7, 0x32, 0x56, 0xfa, 0x15, 0x3f, 0x41,
  0xc3, 0x5e, 0xe2, 0x3d, 0x47, 0xc9, 0x40, 0xc0, 0x5b, 0xed, 0x2c, 0x74, 0x9c, 0xbf, 0xda, 0x75,
  0x9f, 0xba, 0xd5, 0x64, 0xac, 0xef, 0x2a, 0x7e, 0x82, 0x9d, 0xbc, 0xdf, 0x7a, 0x8e, 0x89, 0x80,
  0x9b, 0xb6, 0xc1, 0x58, 0xe8, 0x23, 0x65, 0xaf, 0xea, 0x25, 0x6f, 0xb1, 0xc8, 0x43, 0xc5, 0x54,
  0xfc, 0x1f, 0x21, 0x63, 0xa5, 0xf4, 0x07, 0x09, 0x1b, 0x2d, 0x77, 0x99, 0xb0, 0xcb, 0x46, 0xca,
  0x45, 0xcf, 0x4a, 0xde, 0x79, 0x8b, 0x86, 0x91, 0xa8, 0xe3, 0x3e, 0x42, 0xc6, 0x51, 0xf3, 0x0e,
  0x12, 0x36, 0x5a, 0xee, 0x29, 0x7b, 0x8d, 0x8c, 0x8f, 0x8a, 0x85, 0x94, 0xa7, 0xf2, 0x0d, 0x17,
  0x39, 0x4b, 0xdd, 0x7c, 0x84, 0x97, 0xa2, 0xfd, 0x1c, 0x24, 0x6c, 0xb4, 0xc7, 0x52, 0xf6, 0x01,
  0x03, 0x05, 0x0f, 0x11, 0x33, 0x55, 0xff, 0x1a, 0x2e, 0x72, 0x96, 0xa1, 0xf8, 0x13, 0x35, 0x5f,
  0xe1, 0x38, 0x48, 0xd8, 0x73, 0x95, 0xa4, 0xf7, 0x02, 0x06, 0x0a, 0x1e, 0x22, 0x66, 0xaa, 0xe5,
  0x34, 0x5c, 0xe4, 0x37, 0x59, 0xeb, 0x26, 0x6a, 0xbe, 0xd9, 0x70, 0x90, 0xab, 0xe6, 0x31, 0x53,
  0xf5, 0x04, 0x0c, 0x14, 0x3c, 0x44, 0xcc, 0x4f, 0xd1, 0x68, 0xb8, 0xd3, 0x6e, 0xb2, 0xcd, 0x4c,
  0xd4, 0x67, 0xa9, 0xe0, 0x3b, 0x4d, 0xd7, 0x62, 0xa6, 0xf1, 0x08, 0x18, 0x28, 0x78, 0x88, 0x83,
  0x9e, 0xb9, 0xd0, 0x6b, 0xbd, 0xdc, 0x7f, 0x81, 0x98, 0xb3, 0xce, 0x49, 0xdb, 0x76, 0x9a, 0xb5,
  0xc4, 0x57, 0xf9, 0x10, 0x30, 0x50, 0xf0, 0x0b, 0x1d, 0x27, 0x69, 0xbb, 0xd6, 0x61, 0xa3, 0xfe,
  0x19, 0x2b, 0x7d, 0x87, 0x92, 0xad, 0xec, 0x2f, 0x71, 0x93, 0xae, 0xe9, 0x20, 0x60, 0xa0, 0xfb,
  0x16, 0x3a, 0x4e, 0xd2, 0x6d, 0xb7, 0xc2, 0x5d, 0xe7, 0x32, 0x56, 0xfa, 0x15, 0x3f, 0x41, 0xc3,
  0x5e, 0xe2, 0x3d, 0x47, 0xc9, 0x40, 0xc0, 0x5b, 0xed, 0x2c, 0x74, 0x9c, 0xbf, 0xda, 0x75, 0x9f,
  0xba, 0xd5, 0x64, 0xac, 0xef, 0x2a, 0x7e, 0x82, 0x9d, 0xbc, 0xdf, 0x7a, 0x8e, 0x89, 0x80, 0x9b,
  0xb6, 0xc1, 0x58, 0xe8, 0x23, 0x65, 0xaf, 0xea, 0x25, 0x6f, 0xb1, 0xc8, 0x43, 0xc5, 0x54, 0xfc,
  0x1f, 0x21, 0x63, 0xa5, 0xf4, 0x07, 0x09, 0x1b, 0x2d, 0x77, 0x99, 0xb0, 0xcb, 0x46, 0xca, 0x45,
  0xcf, 0x4a, 0xde, 0x79, 0x8b, 0x86, 0x91, 0xa8, 0xe3, 0x3e, 0x42, 0xc6, 0x51, 0xf3, 0x0e, 0x12,
  0x36, 0x5a, 0xee, 0x29, 0x7b, 0x8d, 0x8c, 0x8f, 0x8a, 0x85, 0x94, 0xa7, 0xf2, 0x0d, 0x17, 0x39,
  0x4b, 0xdd, 0x7c, 0x84, 0x97, 0xa2, 0xfd, 0x1c, 0x24, 0x6c, 0xb4, 0xc7, 0x52, 0xf6]"

text \<open>\<^verbatim>\<open>var logOp = [...]int{...}\<close>: the discrete logarithm, indexed by the byte.\<close>

definition logOp :: "int list" where
  "logOp = [
  0, 0, 25, 1, 50, 2, 26, 198, 75, 199, 27, 104, 51, 238, 223, 3,
  100, 4, 224, 14, 52, 141, 129, 239, 76, 113, 8, 200, 248, 105, 28, 193,
  125, 194, 29, 181, 249, 185, 39, 106, 77, 228, 166, 114, 154, 201, 9, 120,
  101, 47, 138, 5, 33, 15, 225, 36, 18, 240, 130, 69, 53, 147, 218, 142,
  150, 143, 219, 189, 54, 208, 206, 148, 19, 92, 210, 241, 64, 70, 131, 56,
  102, 221, 253, 48, 191, 6, 139, 98, 179, 37, 226, 152, 34, 136, 145, 16,
  126, 110, 72, 195, 163, 182, 30, 66, 58, 107, 40, 84, 250, 133, 61, 186,
  43, 121, 10, 21, 155, 159, 94, 202, 78, 212, 172, 229, 243, 115, 167, 87,
  175, 88, 168, 80, 244, 234, 214, 116, 79, 174, 233, 213, 231, 230, 173, 232,
  44, 215, 117, 122, 235, 22, 11, 245, 89, 203, 95, 176, 156, 169, 81, 160,
  127, 12, 246, 111, 23, 196, 73, 236, 216, 67, 31, 45, 164, 118, 123, 183,
  204, 187, 62, 90, 251, 96, 177, 134, 59, 82, 161, 108, 170, 85, 41, 157,
  151, 178, 135, 144, 97, 190, 220, 252, 188, 149, 207, 205, 55, 63, 91, 209,
  83, 57, 132, 60, 65, 162, 109, 71, 20, 42, 158, 93, 86, 242, 211, 171,
  68, 17, 146, 217, 35, 32, 46, 137, 180, 124, 184, 38, 119, 153, 227, 165,
  103, 74, 237, 222, 197, 49, 254, 24, 13, 99, 140, 128, 192, 247, 112, 7]"

subsection \<open>Field operations\<close>

text \<open>\<^verbatim>\<open>func add(a byte, b byte) byte { return a ^ b }\<close>\<close>

definition add :: "byte \<Rightarrow> byte \<Rightarrow> byte" where
  "add a b = a XOR b"

text \<open>
  The index expressions of \<^verbatim>\<open>mul\<close> and \<^verbatim>\<open>div\<close>, as the Go \<^verbatim>\<open>int\<close> they are:
  \<^verbatim>\<open>logOp[x]+logOp[y]\<close> and \<^verbatim>\<open>0xff+logOp[x]-logOp[y]\<close>. A byte always indexes
  \<open>logOp\<close> (256 entries) in range.
\<close>

definition mul_index :: "byte \<Rightarrow> byte \<Rightarrow> int" where
  "mul_index x y = logOp ! unat x + logOp ! unat y"

definition div_index :: "byte \<Rightarrow> byte \<Rightarrow> int" where
  "div_index x y = 0xff + logOp ! unat x - logOp ! unat y"

text \<open>
  \<^verbatim>\<open>func mul(x byte, y byte) byte\<close> and \<^verbatim>\<open>func div(x byte, y byte) byte\<close>. The
  lookups in \<open>expOp\<close> are shown below to stay inside the table
  (\<open>mul_index_bounds\<close>, \<open>div_index_bounds\<close>), so that \<open>!\<close> is the Go lookup.
\<close>

definition mul :: "byte \<Rightarrow> byte \<Rightarrow> byte" where
  "mul x y = (if x = 0 \<or> y = 0 then 0 else expOp ! nat (mul_index x y))"

definition div_gf :: "byte \<Rightarrow> byte \<Rightarrow> byte" where
  "div_gf x y = (if x = 0 \<or> y = 0 then 0 else expOp ! nat (div_index x y))"

subsection \<open>Slices\<close>

text \<open>
  Reading \<^verbatim>\<open>s[i]\<close> and writing \<^verbatim>\<open>s[i] = v\<close> on a Go slice: outside
  \<open>0 \<le> i < len(s)\<close> the program panics, which is \<open>None\<close> here.
\<close>

definition at :: "'a list \<Rightarrow> nat \<Rightarrow> 'a option" where
  "at s i = (if i < length s then Some (s ! i) else None)"

definition set_at :: "'a list \<Rightarrow> nat \<Rightarrow> 'a \<Rightarrow> 'a list option" where
  "set_at s i v = (if i < length s then Some (s[i := v]) else None)"

subsection \<open>Lagrange interpolation at zero\<close>

text \<open>
  \<^verbatim>\<open>func poly(i int, u []byte) byte\<close>: the loop \<^verbatim>\<open>for j, m := 0, len(u); j < m; j++\<close>
  runs over the indices \<open>[0..<length u]\<close>, with the accumulator \<open>r\<close>.
\<close>

fun poly_loop :: "nat \<Rightarrow> byte list \<Rightarrow> nat list \<Rightarrow> byte \<Rightarrow> byte option" where
  "poly_loop i u [] r = Some r"
| "poly_loop i u (j # js) r =
     (if j \<noteq> i then
        do { uj \<leftarrow> at u j;
             ui \<leftarrow> at u i;
             poly_loop i u js (mul r (div_gf uj (add uj ui))) }
      else poly_loop i u js r)"

definition poly :: "nat \<Rightarrow> byte list \<Rightarrow> byte option" where
  "poly i u = poly_loop i u [0..<length u] 1"

text \<open>
  \<^verbatim>\<open>func interpolate(u []byte, v []byte) byte\<close>; it reads \<^verbatim>\<open>v[i]\<close> for every
  index of \<open>u\<close> and does not compare the lengths itself.
\<close>

fun interpolate_loop :: "byte list \<Rightarrow> byte list \<Rightarrow> nat list \<Rightarrow> byte \<Rightarrow> byte option" where
  "interpolate_loop u v [] r = Some r"
| "interpolate_loop u v (i # is) r =
     do { p \<leftarrow> poly i u;
          vi \<leftarrow> at v i;
          interpolate_loop u v is (add r (mul p vi)) }"

definition interpolate :: "byte list \<Rightarrow> byte list \<Rightarrow> byte option" where
  "interpolate u v = interpolate_loop u v [0..<length u] 0"

subsection \<open>Polynomial evaluation\<close>

text \<open>
  \<^verbatim>\<open>func eval(x byte, a []byte) byte\<close>: \<^verbatim>\<open>for i := range a\<close> visits the
  coefficients in order, carrying \<open>r\<close> and the running power \<open>xi\<close>.
\<close>

fun eval_loop :: "byte \<Rightarrow> byte list \<Rightarrow> byte \<Rightarrow> byte \<Rightarrow> byte" where
  "eval_loop x [] r xi = r"
| "eval_loop x (ai # as) r xi = eval_loop x as (add r (mul ai xi)) (mul xi x)"

definition eval :: "byte \<Rightarrow> byte list \<Rightarrow> byte" where
  "eval x a = eval_loop x a 0 1"

text \<open>\<^verbatim>\<open>func erase(a []byte)\<close> overwrites every cell with \<open>0xff\<close>.\<close>

definition erase :: "byte list \<Rightarrow> byte list" where
  "erase a = map (\<lambda>_. 0xff) a"

subsection \<open>Share generation\<close>

text \<open>
  The entropy source is a tape of the bytes it will deliver. \<^verbatim>\<open>rand.Read(a)\<close>
  fills the whole buffer from the tape and returns a nil error, or returns an error
  when the tape cannot fill it: \<open>None\<close>. The result is the filled buffer and the rest
  of the tape.
\<close>

definition rand_Read :: "byte list \<Rightarrow> byte list \<Rightarrow> (byte list \<times> byte list) option" where
  "rand_Read tape a =
     (if length tape < length a then None
      else Some (take (length a) tape, drop (length a) tape))"

text \<open>
  The first loop of \<^verbatim>\<open>CreateShares\<close>:
  \<^verbatim>\<open>shares[i] = make([]byte, secretSize+1); shares[i][0] = (byte)(i + 1)\<close>.
\<close>

fun init_shares :: "nat \<Rightarrow> nat list \<Rightarrow> ShareSet \<Rightarrow> ShareSet option" where
  "init_shares secretSize [] shares = Some shares"
| "init_shares secretSize (i # is) shares =
     do { shares1 \<leftarrow> set_at shares i (replicate (secretSize + 1) 0);
          si \<leftarrow> at shares1 i;
          si' \<leftarrow> set_at si 0 (of_nat (i + 1));
          shares2 \<leftarrow> set_at shares1 i si';
          init_shares secretSize is shares2 }"

text \<open>
  The inner loop, for secret byte \<open>i\<close>:
  \<^verbatim>\<open>shares[j][i+1] = eval(shares[j][0], a)\<close> for every share \<open>j\<close>.
\<close>

fun share_column :: "byte list \<Rightarrow> nat \<Rightarrow> nat list \<Rightarrow> ShareSet \<Rightarrow> ShareSet option" where
  "share_column a i [] shares = Some shares"
| "share_column a i (j # js) shares =
     do { sj \<leftarrow> at shares j;
          x \<leftarrow> at sj 0;
          sj' \<leftarrow> set_at sj (i + 1) (eval x a);
          shares' \<leftarrow> set_at shares j sj';
          share_column a i js shares' }"

text \<open>
  The outer loop over the secret's bytes: read fresh coefficients into \<open>a\<close> (an error
  of the source is returned at once, with no shares), overwrite \<open>a[0]\<close> with the
  secret byte, fill the column. The tape, the buffer and the shares are the state.
\<close>

fun create_loop ::
  "byte list \<Rightarrow> nat \<Rightarrow> byte list \<Rightarrow> byte list \<Rightarrow> nat list \<Rightarrow> ShareSet \<Rightarrow> ShareSet outcome" where
  "create_loop secret n tape a [] shares = Returns (Inr shares)"
| "create_loop secret n tape a (i # is) shares =
     (case rand_Read tape a of
        None \<Rightarrow> Returns (Inl ErrRandRead)
      | Some (a1, tape') \<Rightarrow>
          (case do { s \<leftarrow> at secret i;
                     a2 \<leftarrow> set_at a1 0 s;
                     shares' \<leftarrow> share_column a2 i [0..<n] shares;
                     Some (a2, shares') } of
             None \<Rightarrow> Panics
           | Some (a2, shares') \<Rightarrow> create_loop secret n tape' a2 is shares'))"

text \<open>
  \<^verbatim>\<open>func CreateShares(secret []byte, sharesCount int, threshold int) (shares ShareSet, err error)\<close>.
  The two counts are Go \<^verbatim>\<open>int\<close>s; they are only compared before they are used as
  lengths, so \<open>int\<close> holds them. \<^verbatim>\<open>make([]byte, threshold)\<close> panics on a negative
  length. The deferred \<^verbatim>\<open>erase(a)\<close> overwrites the local buffer on the way out and
  changes nothing that is returned.
\<close>

definition CreateShares :: "byte list \<Rightarrow> byte list \<Rightarrow> int \<Rightarrow> int \<Rightarrow> ShareSet outcome" where
  "CreateShares tape secret sharesCount threshold =
     (if length secret = 0 then Returns (Inl ErrSecretRequired)
      else let secretSize = length secret in
      if secretSize < MinSecretBytes then Returns (Inl ErrSecretTooShort)
      else if secretSize > MaxSecretBytes then Returns (Inl ErrSecretTooLarge)
      else if sharesCount < MinShares then Returns (Inl ErrTooFewShares)
      else if sharesCount > MaxShares then Returns (Inl ErrTooManyShares)
      else if threshold > sharesCount then Returns (Inl ErrInvalidThreshold)
      else
        (case init_shares secretSize [0..<nat sharesCount] (replicate (nat sharesCount) []) of
           None \<Rightarrow> Panics
         | Some shares \<Rightarrow>
             if threshold < 0 then Panics
             else create_loop secret (nat sharesCount) tape (replicate (nat threshold) 0)
                    [0..<secretSize] shares))"

subsection \<open>Secret recovery\<close>

text \<open>
  The memory a call of \<^verbatim>\<open>RecoverSecret\<close> works on: the caller's share set, and the
  three buffers the call allocates with \<^verbatim>\<open>make\<close>, which are fresh and so share no
  cell with the caller's shares.
\<close>

record recover_state =
  shares_of :: ShareSet
  u_of :: "byte list"
  v_of :: "byte list"
  secret_of :: "byte list"

text \<open>
  The length check \<^verbatim>\<open>for i := 1; i < sharesCount; i++\<close>: \<open>Some False\<close> at the
  first share whose length differs.
\<close>

fun sizes_loop :: "ShareSet \<Rightarrow> nat \<Rightarrow> nat list \<Rightarrow> bool option" where
  "sizes_loop shares shareSize [] = Some True"
| "sizes_loop shares shareSize (i # is) =
     do { si \<leftarrow> at shares i;
          if length si \<noteq> shareSize then Some False
          else sizes_loop shares shareSize is }"

text \<open>\<^verbatim>\<open>u[i] = shares[i][0]\<close> for every share.\<close>

fun collect_u :: "nat list \<Rightarrow> recover_state \<Rightarrow> recover_state option" where
  "collect_u [] st = Some st"
| "collect_u (i # is) st =
     do { si \<leftarrow> at (shares_of st) i;
          x \<leftarrow> at si 0;
          u' \<leftarrow> set_at (u_of st) i x;
          collect_u is (st\<lparr>u_of := u'\<rparr>) }"

text \<open>\<^verbatim>\<open>v[i] = shares[i][j+1]\<close> for every share.\<close>

fun collect_v :: "nat \<Rightarrow> nat list \<Rightarrow> recover_state \<Rightarrow> recover_state option" where
  "collect_v j [] st = Some st"
| "collect_v j (i # is) st =
     do { si \<leftarrow> at (shares_of st) i;
          y \<leftarrow> at si (j + 1);
          v' \<leftarrow> set_at (v_of st) i y;
          collect_v j is (st\<lparr>v_of := v'\<rparr>) }"

text \<open>The loop over the payload offsets: \<^verbatim>\<open>secret[j] = interpolate(u, v)\<close>.\<close>

fun recover_loop :: "nat \<Rightarrow> nat list \<Rightarrow> recover_state \<Rightarrow> recover_state option" where
  "recover_loop n [] st = Some st"
| "recover_loop n (j # js) st =
     do { st1 \<leftarrow> collect_v j [0..<n] st;
          b \<leftarrow> interpolate (u_of st1) (v_of st1);
          secret' \<leftarrow> set_at (secret_of st1) j b;
          recover_loop n js (st1\<lparr>secret_of := secret'\<rparr>) }"

text \<open>The deferred \<^verbatim>\<open>erase(v)\<close> and \<^verbatim>\<open>erase(u)\<close>, run on the way out.\<close>

definition run_deferred :: "recover_state \<Rightarrow> recover_state" where
  "run_deferred st = st\<lparr>v_of := erase (v_of st), u_of := erase (u_of st)\<rparr>"

text \<open>
  \<^verbatim>\<open>func RecoverSecret(shares ShareSet) (secret []byte, err error)\<close>, with the memory
  it leaves behind. A return before the buffers are made leaves them empty.
\<close>

definition RecoverSecret_run :: "ShareSet \<Rightarrow> byte list outcome \<times> recover_state" where
  "RecoverSecret_run shares =
     (let st0 = \<lparr>shares_of = shares, u_of = [], v_of = [], secret_of = []\<rparr>;
          sharesCount = length shares in
      if int sharesCount < MinShares then (Returns (Inl ErrTooFewShares), st0)
      else if int sharesCount > MaxShares then (Returns (Inl ErrTooManyShares), st0)
      else
        (case at shares 0 of
           None \<Rightarrow> (Panics, st0)
         | Some s0 \<Rightarrow>
             let shareSize = length s0 in
             if shareSize < MinShareBytes then (Returns (Inl ErrInvalidShare), st0)
             else if shareSize > MaxShareBytes then (Returns (Inl ErrInvalidShare), st0)
             else
               (case sizes_loop shares shareSize [1..<sharesCount] of
                  None \<Rightarrow> (Panics, st0)
                | Some False \<Rightarrow> (Returns (Inl ErrInvalidShare), st0)
                | Some True \<Rightarrow>
                    let st1 = st0\<lparr>u_of := replicate sharesCount 0\<rparr> in
                    (case collect_u [0..<sharesCount] st1 of
                       None \<Rightarrow> (Panics, run_deferred st1)
                     | Some st2 \<Rightarrow>
                         let secretSize = shareSize - 1;
                             st3 = st2\<lparr>v_of := replicate sharesCount 0,
                                       secret_of := replicate secretSize 0\<rparr> in
                         (case recover_loop sharesCount [0..<secretSize] st3 of
                            None \<Rightarrow> (Panics, run_deferred st3)
                          | Some st4 \<Rightarrow> (Returns (Inr (secret_of st4)), run_deferred st4))))))"

definition RecoverSecret :: "ShareSet \<Rightarrow> byte list outcome" where
  "RecoverSecret shares = fst (RecoverSecret_run shares)"

section \<open>The field GF(256) behind the tables\<close>

subsection \<open>What the tables contain\<close>

lemma len_expOp: "length expOp = 510" by (simp add: expOp_def)
lemma len_logOp: "length logOp = 256" by (simp add: logOp_def)

lemma exp_twice: "drop 255 expOp = take 255 expOp"
  by (simp add: expOp_def)

text \<open>
  Multiplication by the generator 3 is \<open>y XOR 2\<cdot>y\<close>, where doubling is a shift
  followed by the reduction by the field polynomial \<open>0x11b\<close>. Both are used only to
  read the tables; the program never calls them.
\<close>

definition xtime :: "byte \<Rightarrow> byte" where
  "xtime y = push_bit 1 y XOR (if bit y 7 then 0x1b else 0)"

definition m3 :: "byte \<Rightarrow> byte" where "m3 y = y XOR xtime y"

lemma exp_step: "map m3 (take 255 expOp) = take 255 (drop 1 expOp)"
  by (simp add: expOp_def m3_def xtime_def)

lemma log_exp: "map (\<lambda>x. logOp ! unat x) (take 255 expOp) = map int [0..<255]"
  unfolding expOp_def logOp_def by code_simp

lemma exp_log: "map (\<lambda>i. expOp ! nat (logOp ! i)) [1..<256] = map of_nat [1..<256]"
  unfolding expOp_def logOp_def by code_simp

lemma logOp_set: "\<forall>v\<in>set logOp. 0 \<le> v \<and> v \<le> 254"
  by (simp add: logOp_def)

lemma expOp_set: "0 \<notin> set expOp"
  by (simp add: expOp_def)

lemma unat_byte_lt: "unat (x::byte) < 256"
  using unsigned_less [of x, where 'a = nat] by simp

lemma logOp_range: "0 \<le> logOp ! unat (x::byte) \<and> logOp ! unat x \<le> 254"
proof -
  have "logOp ! unat x \<in> set logOp"
    by (rule nth_mem) (simp add: len_logOp unat_byte_lt)
  then show ?thesis using logOp_set by blast
qed

text \<open>The logarithm as a natural number, and the power with its exponent reduced.\<close>

definition dlog :: "byte \<Rightarrow> nat" where "dlog x = nat (logOp ! unat x)"
definition pw :: "nat \<Rightarrow> byte" where "pw k = expOp ! (k mod 255)"

lemma dlog_lt: "dlog x < 255"
  using logOp_range [of x] unfolding dlog_def by linarith

lemma expOp_wrap: assumes "i < 255" shows "expOp ! (i + 255) = expOp ! i"
proof -
  have "expOp ! (255 + i) = drop 255 expOp ! i"
    by (rule nth_drop [symmetric]) (simp add: len_expOp)
  also have "\<dots> = take 255 expOp ! i" by (simp only: exp_twice)
  also have "\<dots> = expOp ! i" using assms by simp
  finally show ?thesis by (simp add: add.commute)
qed

lemma expOp_pw: assumes "k < 510" shows "expOp ! k = pw k"
proof (cases "k < 255")
  case True then show ?thesis by (simp add: pw_def)
next
  case False
  then have k: "k = (k - 255) + 255" and lt: "k - 255 < 255" using assms by auto
  have "k mod 255 = k - 255" using lt False by (simp add: mod_if)
  then show ?thesis using expOp_wrap [OF lt] k by (simp add: pw_def)
qed

lemma pw_nz: "pw k \<noteq> 0"
proof -
  have "k mod 255 < 255" by simp
  then have "k mod 255 < length expOp" by (simp only: len_expOp)
  then have "pw k \<in> set expOp" unfolding pw_def by (rule nth_mem)
  then show ?thesis using expOp_set by metis
qed

lemma dlog_pw: "dlog (pw k) = k mod 255"
proof -
  let ?i = "k mod 255"
  have lt: "?i < 255" by simp
  have "map (\<lambda>x. logOp ! unat x) (take 255 expOp) ! ?i = map int [0..<255] ! ?i"
    by (simp only: log_exp)
  then have "logOp ! unat (expOp ! ?i) = int ?i"
    using lt by (simp add: len_expOp)
  then show ?thesis by (simp add: dlog_def pw_def)
qed

lemma pw_dlog: assumes "x \<noteq> 0" shows "pw (dlog x) = x"
proof -
  have pos: "0 < unat x" using assms by (simp add: unat_gt_0)
  then have i: "unat x - 1 < 255" using unat_byte_lt [of x] by simp
  have "map (\<lambda>i. expOp ! nat (logOp ! i)) [1..<256] ! (unat x - 1)
        = map of_nat [1..<256] ! (unat x - 1)"
    by (simp only: exp_log)
  then have "expOp ! nat (logOp ! unat x) = (of_nat (unat x) :: byte)"
    using i pos by simp
  then have "expOp ! dlog x = x" by (simp add: dlog_def)
  then show ?thesis using dlog_lt [of x] by (simp add: pw_def)
qed

lemma pw_mod: "pw (k mod 255) = pw k" by (simp add: pw_def)

lemma m3_pw: "m3 (pw k) = pw (Suc k)"
proof -
  let ?i = "k mod 255"
  have lt: "?i < 255" by simp
  have "map m3 (take 255 expOp) ! ?i = take 255 (drop 1 expOp) ! ?i"
    by (simp only: exp_step)
  then have "m3 (expOp ! ?i) = expOp ! (Suc ?i)"
    using lt by (simp add: len_expOp)
  also have "\<dots> = pw (Suc ?i)" by (rule expOp_pw) (use lt in simp)
  also have "\<dots> = pw (Suc k)" unfolding pw_def by (simp add: mod_Suc_eq)
  finally show ?thesis by (simp add: pw_def)
qed

lemma mul_index_bounds:
  "0 \<le> mul_index x y \<and> mul_index x y \<le> 508"
  using logOp_range [of x] logOp_range [of y] by (simp add: mul_index_def)

lemma div_index_bounds:
  "1 \<le> div_index x y \<and> div_index x y \<le> 509"
  using logOp_range [of x] logOp_range [of y] by (simp add: div_index_def)

lemma mul_pw: assumes "x \<noteq> 0" "y \<noteq> 0" shows "mul x y = pw (dlog x + dlog y)"
proof -
  have "nat (mul_index x y) = dlog x + dlog y"
    using logOp_range [of x] logOp_range [of y] by (simp add: mul_index_def dlog_def nat_add_distrib)
  moreover have "dlog x + dlog y < 510" using dlog_lt [of x] dlog_lt [of y] by simp
  ultimately show ?thesis using assms by (simp add: mul_def expOp_pw)
qed

lemma div_pw: assumes "x \<noteq> 0" "y \<noteq> 0" shows "div_gf x y = pw (255 + dlog x - dlog y)"
proof -
  have "nat (div_index x y) = 255 + dlog x - dlog y"
    using logOp_range [of x] logOp_range [of y] unfolding div_index_def dlog_def by linarith
  moreover have "255 + dlog x - dlog y < 510" using dlog_lt [of x] dlog_lt [of y] by simp
  ultimately show ?thesis using assms by (simp add: div_gf_def expOp_pw)
qed

lemma mul_zero [simp]: "mul 0 y = 0" "mul x 0 = 0" by (simp_all add: mul_def)
lemma div_zero [simp]: "div_gf 0 y = 0" "div_gf x 0 = 0" by (simp_all add: div_gf_def)

lemma mul_nz: "x \<noteq> 0 \<Longrightarrow> y \<noteq> 0 \<Longrightarrow> mul x y \<noteq> 0"
  by (simp add: mul_pw pw_nz)

lemma mul_eq_0_iff: "mul x y = 0 \<longleftrightarrow> x = 0 \<or> y = 0"
  using mul_nz by (auto)

lemma mul_commute: "mul x y = mul y x"
  by (simp add: mul_def mul_index_def add.commute disj_commute)

lemma pw_cong: "a mod 255 = b mod 255 \<Longrightarrow> pw a = pw b" by (simp add: pw_def)

lemma mul_assoc: "mul (mul x y) z = mul x (mul y z)"
proof (cases "x = 0 \<or> y = 0 \<or> z = 0")
  case True then show ?thesis by auto
next
  case False
  then have nz: "x \<noteq> 0" "y \<noteq> 0" "z \<noteq> 0" by auto
  have "mul (mul x y) z = pw ((dlog x + dlog y) mod 255 + dlog z)"
    using nz by (simp add: mul_pw pw_nz dlog_pw)
  also have "\<dots> = pw (dlog x + (dlog y + dlog z) mod 255)"
    by (rule pw_cong) (simp add: mod_add_left_eq mod_add_right_eq add.assoc)
  also have "\<dots> = mul x (mul y z)"
    using nz by (simp add: mul_pw pw_nz dlog_pw)
  finally show ?thesis .
qed

lemma dlog_1: "dlog 1 = 0" by (simp add: dlog_def logOp_def)

lemma mul_1: "mul 1 x = x"
proof (cases "x = 0")
  case False
  then show ?thesis using dlog_lt [of x] by (simp add: mul_pw dlog_1 pw_dlog)
qed simp

lemma div_mul_cancel: assumes "y \<noteq> 0" shows "div_gf (mul x y) y = x"
proof (cases "x = 0")
  case False
  have "div_gf (mul x y) y = pw (255 + (dlog x + dlog y) mod 255 - dlog y)"
    using False assms by (simp add: div_pw mul_pw pw_nz dlog_pw)
  also have "\<dots> = pw (dlog x)"
  proof (rule pw_cong)
    have "dlog x < 255" "dlog y < 255" by (rule dlog_lt)+
    then show "(255 + (dlog x + dlog y) mod 255 - dlog y) mod 255 = dlog x mod 255"
      by (cases "dlog x + dlog y < 255") (simp_all add: mod_if)
  qed
  finally show ?thesis using False by (simp add: pw_dlog)
qed simp

lemma div_as_mul: "div_gf x y = mul x (div_gf 1 y)"
proof (cases "x = 0 \<or> y = 0")
  case False
  then have nz: "x \<noteq> 0" "y \<noteq> 0" by auto
  have "mul x (div_gf 1 y) = pw (dlog x + (255 - dlog y) mod 255)"
    using nz by (simp add: div_pw mul_pw pw_nz dlog_pw dlog_1)
  also have "\<dots> = pw (255 + dlog x - dlog y)"
  proof (rule pw_cong)
    have "dlog x < 255" "dlog y < 255" by (rule dlog_lt)+
    then show "(dlog x + (255 - dlog y) mod 255) mod 255 = (255 + dlog x - dlog y) mod 255"
      by (cases "dlog y = 0") (simp_all add: mod_if add.commute)
  qed
  finally show ?thesis using nz by (simp add: div_pw)
qed auto

lemma inv_mul: assumes "x \<noteq> 0" shows "mul (div_gf 1 x) x = 1"
proof -
  have "mul (div_gf 1 x) x = pw ((255 - dlog x) mod 255 + dlog x)"
    using assms by (simp add: div_pw mul_pw pw_nz dlog_pw dlog_1)
  also have "\<dots> = pw 0"
  proof (rule pw_cong)
    have "dlog x < 255" by (rule dlog_lt)
    then show "((255 - dlog x) mod 255 + dlog x) mod 255 = 0 mod 255"
      by (cases "dlog x = 0") (simp_all add: mod_if)
  qed
  also have "pw 0 = 1" by (simp add: pw_def expOp_def)
  finally show ?thesis .
qed

lemma xtime_xor: "xtime (a XOR b) = xtime a XOR xtime b"
  by (simp add: xtime_def bit_xor_iff push_bit_xor xor.assoc xor.left_commute xor.commute)

lemma m3_xor: "m3 (a XOR b) = m3 a XOR m3 b"
  by (simp add: m3_def xtime_xor xor.assoc xor.left_commute)

lemma m3_0: "m3 0 = 0" by (simp add: m3_def xtime_def)

lemma m3_pow_xor: "(m3 ^^ n) (a XOR b) = (m3 ^^ n) a XOR (m3 ^^ n) b"
  by (induction n) (simp_all add: m3_xor)

lemma m3_pow_0: "(m3 ^^ n) 0 = 0"
  by (induction n) (simp_all add: m3_0)

lemma m3_pow_pw: "(m3 ^^ n) (pw k) = pw (n + k)"
  by (induction n) (simp_all add: m3_pw)

lemma mul_m3: assumes "x \<noteq> 0" shows "mul x y = (m3 ^^ dlog x) y"
proof (cases "y = 0")
  case True then show ?thesis by (simp add: m3_pow_0)
next
  case False
  have "(m3 ^^ dlog x) (pw (dlog y)) = pw (dlog x + dlog y)" by (rule m3_pow_pw)
  then show ?thesis using assms False by (simp add: mul_pw pw_dlog)
qed

lemma mul_add_distrib: "mul x (add y z) = add (mul x y) (mul x z)"
proof (cases "x = 0")
  case True then show ?thesis by (simp add: add_def)
next
  case False then show ?thesis by (simp add: mul_m3 add_def m3_pow_xor)
qed

section \<open>The loops in closed form\<close>

subsection \<open>Recovery\<close>

text \<open>The loops without their bounds checks.\<close>

definition basis :: "nat \<Rightarrow> byte list \<Rightarrow> nat list \<Rightarrow> byte \<Rightarrow> byte" where
  "basis i u js r =
     fold (\<lambda>j r. if j \<noteq> i then mul r (div_gf (u ! j) (add (u ! j) (u ! i))) else r) js r"

definition lagrange0 :: "byte list \<Rightarrow> byte list \<Rightarrow> nat list \<Rightarrow> byte \<Rightarrow> byte" where
  "lagrange0 u v is r =
     fold (\<lambda>i r. add r (mul (basis i u [0..<length u] 1) (v ! i))) is r"

lemma at_Some: "i < length s \<Longrightarrow> at s i = Some (s ! i)" by (simp add: at_def)
lemma set_at_Some: "i < length s \<Longrightarrow> set_at s i v = Some (s[i := v])" by (simp add: set_at_def)

lemma poly_loop_basis:
  assumes "i < length u" "\<forall>j\<in>set js. j < length u"
  shows "poly_loop i u js r = Some (basis i u js r)"
  using assms(2)
proof (induction js arbitrary: r)
  case Nil
  show ?case by (simp add: basis_def)
next
  case (Cons j js)
  then have j: "j < length u" and rest: "\<forall>j\<in>set js. j < length u" by simp_all
  show ?case using Cons.IH [OF rest] j assms(1) by (simp add: at_Some basis_def)
qed

lemma poly_basis: "i < length u \<Longrightarrow> poly i u = Some (basis i u [0..<length u] 1)"
  unfolding poly_def by (rule poly_loop_basis) simp_all

lemma interpolate_loop_lagrange0:
  assumes "\<forall>i\<in>set is. i < length u \<and> i < length v"
  shows "interpolate_loop u v is r = Some (lagrange0 u v is r)"
  using assms
proof (induction "is" arbitrary: r)
  case Nil
  show ?case by (simp add: lagrange0_def)
next
  case (Cons i "is")
  then have i: "i < length u" "i < length v" and rest: "\<forall>i\<in>set is. i < length u \<and> i < length v"
    by simp_all
  show ?case using Cons.IH [OF rest] i by (simp add: poly_basis at_Some lagrange0_def)
qed

lemma interpolate_lagrange0:
  "length u \<le> length v \<Longrightarrow> interpolate u v = Some (lagrange0 u v [0..<length u] 0)"
  unfolding interpolate_def by (rule interpolate_loop_lagrange0) simp

lemma sizes_loop_eq:
  assumes "\<forall>i\<in>set is. i < length shares"
  shows "sizes_loop shares sz is = Some (list_all (\<lambda>i. length (shares ! i) = sz) is)"
  using assms by (induction "is") (simp_all add: at_Some)

lemma fold_update_upt:
  assumes "length xs = n" "k \<le> n"
  shows "fold (\<lambda>i xs. xs[i := f i]) [k..<n] xs = take k xs @ map f [k..<n]"
  using assms
proof (induction "n - k" arbitrary: k xs)
  case 0
  then show ?case by simp
next
  case (Suc d)
  then have lt: "k < n" by simp
  have IH: "fold (\<lambda>i xs. xs[i := f i]) [Suc k..<n] (xs[k := f k])
            = take (Suc k) (xs[k := f k]) @ map f [Suc k..<n]"
    by (rule Suc.hyps(1)) (use Suc lt in simp_all)
  have "take (Suc k) (xs[k := f k]) = take k xs @ [f k]"
    using lt Suc.prems(1) by (simp add: take_Suc_conv_app_nth)
  then show ?case using IH lt by (simp add: upt_conv_Cons)
qed

lemma collect_u_fold:
  assumes "\<forall>i\<in>set is. i < length (shares_of st) \<and> i < length (u_of st) \<and> shares_of st ! i \<noteq> []"
  shows "collect_u is st = Some (st\<lparr>u_of := fold (\<lambda>i u. u[i := shares_of st ! i ! 0]) is (u_of st)\<rparr>)"
  using assms
proof (induction "is" arbitrary: st)
  case Nil
  show ?case by simp
next
  case (Cons i "is")
  let ?st' = "st\<lparr>u_of := (u_of st)[i := shares_of st ! i ! 0]\<rparr>"
  have i: "i < length (shares_of st)" "i < length (u_of st)" "0 < length (shares_of st ! i)"
    using Cons.prems by simp_all
  have "collect_u is ?st' = Some (?st'\<lparr>u_of := fold (\<lambda>i u. u[i := shares_of ?st' ! i ! 0]) is (u_of ?st')\<rparr>)"
    by (rule Cons.IH) (use Cons.prems in simp)
  then show ?case using i by (simp add: at_Some set_at_Some)
qed

lemma collect_v_fold:
  assumes "\<forall>i\<in>set is. i < length (shares_of st) \<and> i < length (v_of st) \<and> j + 1 < length (shares_of st ! i)"
  shows "collect_v j is st = Some (st\<lparr>v_of := fold (\<lambda>i v. v[i := shares_of st ! i ! (j + 1)]) is (v_of st)\<rparr>)"
  using assms
proof (induction "is" arbitrary: st)
  case Nil
  show ?case by simp
next
  case (Cons i "is")
  let ?st' = "st\<lparr>v_of := (v_of st)[i := shares_of st ! i ! (j + 1)]\<rparr>"
  have i: "i < length (shares_of st)" "i < length (v_of st)" "j + 1 < length (shares_of st ! i)"
    using Cons.prems by simp_all
  have "collect_v j is ?st' = Some (?st'\<lparr>v_of := fold (\<lambda>i v. v[i := shares_of ?st' ! i ! (j + 1)]) is (v_of ?st')\<rparr>)"
    by (rule Cons.IH) (use Cons.prems in simp)
  then show ?case using i by (simp add: at_Some set_at_Some)
qed

lemma collect_u_all:
  assumes "length (u_of st) = length (shares_of st)" "\<forall>s\<in>set (shares_of st). s \<noteq> []"
  shows "collect_u [0..<length (shares_of st)] st = Some (st\<lparr>u_of := map (\<lambda>s. s ! 0) (shares_of st)\<rparr>)"
proof -
  let ?n = "length (shares_of st)"
  have "collect_u [0..<?n] st = Some (st\<lparr>u_of := fold (\<lambda>i u. u[i := shares_of st ! i ! 0]) [0..<?n] (u_of st)\<rparr>)"
    by (rule collect_u_fold) (use assms in simp)
  moreover have "fold (\<lambda>i u. u[i := shares_of st ! i ! 0]) [0..<?n] (u_of st)
                 = take 0 (u_of st) @ map (\<lambda>i. shares_of st ! i ! 0) [0..<?n]"
    by (rule fold_update_upt) (use assms in simp_all)
  moreover have "map (\<lambda>i. shares_of st ! i ! 0) [0..<?n] = map (\<lambda>s. s ! 0) (shares_of st)"
    by (rule nth_equalityI) simp_all
  ultimately show ?thesis by simp
qed


lemma collect_v_all:
  assumes "length (v_of st) = length (shares_of st)" "\<forall>s\<in>set (shares_of st). j + 1 < length s"
  shows "collect_v j [0..<length (shares_of st)] st
         = Some (st\<lparr>v_of := map (\<lambda>s. s ! (j + 1)) (shares_of st)\<rparr>)"
proof -
  let ?n = "length (shares_of st)"
  have "collect_v j [0..<?n] st
        = Some (st\<lparr>v_of := fold (\<lambda>i v. v[i := shares_of st ! i ! (j + 1)]) [0..<?n] (v_of st)\<rparr>)"
    by (rule collect_v_fold) (use assms in simp)
  moreover have "fold (\<lambda>i v. v[i := shares_of st ! i ! (j + 1)]) [0..<?n] (v_of st)
                 = take 0 (v_of st) @ map (\<lambda>i. shares_of st ! i ! (j + 1)) [0..<?n]"
    by (rule fold_update_upt) (use assms in simp_all)
  moreover have "map (\<lambda>i. shares_of st ! i ! (j + 1)) [0..<?n] = map (\<lambda>s. s ! (j + 1)) (shares_of st)"
    by (rule nth_equalityI) simp_all
  ultimately show ?thesis by simp
qed

text \<open>The byte recovered at payload offset \<open>j\<close>, and the whole recovered secret.\<close>

definition recovered_byte :: "ShareSet \<Rightarrow> nat \<Rightarrow> byte" where
  "recovered_byte shares j =
     lagrange0 (map (\<lambda>s. s ! 0) shares) (map (\<lambda>s. s ! (j + 1)) shares) [0..<length shares] 0"

definition recovered :: "ShareSet \<Rightarrow> byte list" where
  "recovered shares = map (recovered_byte shares) [0..<length (shares ! 0) - 1]"

lemma recover_loop_fold:
  assumes "length (v_of st) = length (shares_of st)"
    and "u_of st = map (\<lambda>s. s ! 0) (shares_of st)"
    and "\<forall>j\<in>set js. j < length (secret_of st) \<and> (\<forall>s\<in>set (shares_of st). j + 1 < length s)"
  shows "\<exists>st'. recover_loop (length (shares_of st)) js st = Some st'
           \<and> shares_of st' = shares_of st \<and> u_of st' = u_of st
           \<and> length (v_of st') = length (shares_of st)
           \<and> secret_of st' = fold (\<lambda>j sec. sec[j := recovered_byte (shares_of st) j]) js (secret_of st)"
  using assms
proof (induction js arbitrary: st)
  case Nil
  show ?case using Nil.prems by simp
next
  case (Cons j js)
  let ?sh = "shares_of st"
  let ?n = "length ?sh"
  let ?st1 = "st\<lparr>v_of := map (\<lambda>s. s ! (j + 1)) ?sh\<rparr>"
  let ?b = "recovered_byte ?sh j"
  let ?st2 = "?st1\<lparr>secret_of := (secret_of st)[j := ?b]\<rparr>"
  have j: "j < length (secret_of st)" "\<forall>s\<in>set ?sh. j + 1 < length s"
    using Cons.prems(3) by simp_all
  have cv: "collect_v j [0..<?n] st = Some ?st1"
    by (rule collect_v_all) (use Cons.prems(1) j in simp_all)
  have ip: "interpolate (u_of ?st1) (v_of ?st1) = Some ?b"
    using interpolate_lagrange0 [of "u_of ?st1" "v_of ?st1"]
    by (simp add: Cons.prems(2) recovered_byte_def)
  have step: "recover_loop ?n (j # js) st = recover_loop ?n js ?st2"
    using cv ip j(1) by (simp add: set_at_Some)
  have "\<exists>st'. recover_loop (length (shares_of ?st2)) js ?st2 = Some st'
           \<and> shares_of st' = shares_of ?st2 \<and> u_of st' = u_of ?st2
           \<and> length (v_of st') = length (shares_of ?st2)
           \<and> secret_of st' = fold (\<lambda>j sec. sec[j := recovered_byte (shares_of ?st2) j]) js (secret_of ?st2)"
    by (rule Cons.IH) (use Cons.prems in simp_all)
  then show ?case using step by simp
qed

lemma erase_replicate: "erase a = replicate (length a) 0xff"
  by (simp add: erase_def map_replicate_const)

lemma RecoverSecret_run_valid:
  assumes n: "2 \<le> length shares" "length shares \<le> 255"
    and sz: "33 \<le> length (shares ! 0)" "length (shares ! 0) \<le> 65535"
    and same: "\<forall>s\<in>set shares. length s = length (shares ! 0)"
  shows "RecoverSecret_run shares =
           (Returns (Inr (recovered shares)),
            \<lparr>shares_of = shares, u_of = replicate (length shares) 0xff,
             v_of = replicate (length shares) 0xff, secret_of = recovered shares\<rparr>)"
proof -
  let ?n = "length shares"
  let ?sz = "length (shares ! 0)"
  let ?st0 = "\<lparr>shares_of = shares, u_of = [], v_of = [], secret_of = []\<rparr>"
  let ?st1 = "?st0\<lparr>u_of := replicate ?n 0\<rparr>"
  let ?st2 = "?st1\<lparr>u_of := map (\<lambda>s. s ! 0) shares\<rparr>"
  let ?st3 = "?st2\<lparr>v_of := replicate ?n 0, secret_of := replicate (?sz - 1) 0\<rparr>"
  have a0: "at shares 0 = Some (shares ! 0)" using n by (auto simp: at_def)
  have "sizes_loop shares ?sz [1..<?n] = Some (list_all (\<lambda>i. length (shares ! i) = ?sz) [1..<?n])"
    by (rule sizes_loop_eq) simp
  moreover have "list_all (\<lambda>i. length (shares ! i) = ?sz) [1..<?n]"
    using same by (simp add: list_all_iff)
  ultimately have sl: "sizes_loop shares ?sz [1..<?n] = Some True" by simp
  have "collect_u [0..<length (shares_of ?st1)] ?st1
        = Some (?st1\<lparr>u_of := map (\<lambda>s. s ! 0) (shares_of ?st1)\<rparr>)"
    by (rule collect_u_all) (use same sz in auto)
  then have cu: "collect_u [0..<?n] ?st1 = Some ?st2" by simp
  have "\<exists>st'. recover_loop (length (shares_of ?st3)) [0..<?sz - 1] ?st3 = Some st'
           \<and> shares_of st' = shares_of ?st3 \<and> u_of st' = u_of ?st3
           \<and> length (v_of st') = length (shares_of ?st3)
           \<and> secret_of st' = fold (\<lambda>j sec. sec[j := recovered_byte (shares_of ?st3) j])
                                [0..<?sz - 1] (secret_of ?st3)"
    by (rule recover_loop_fold) (use same in auto)
  then obtain st4 where rl: "recover_loop ?n [0..<?sz - 1] ?st3 = Some st4"
    and st4: "shares_of st4 = shares" "u_of st4 = map (\<lambda>s. s ! 0) shares" "length (v_of st4) = ?n"
      "secret_of st4 = fold (\<lambda>j sec. sec[j := recovered_byte shares j]) [0..<?sz - 1] (replicate (?sz - 1) 0)"
    by auto
  have "fold (\<lambda>j sec. sec[j := recovered_byte shares j]) [0..<?sz - 1] (replicate (?sz - 1) 0)
        = take 0 (replicate (?sz - 1) 0) @ map (recovered_byte shares) [0..<?sz - 1]"
    by (rule fold_update_upt) simp_all
  then have sec: "secret_of st4 = recovered shares" using st4(4) by (simp add: recovered_def)
  have fin: "run_deferred st4 = \<lparr>shares_of = shares, u_of = replicate ?n 0xff,
             v_of = replicate ?n 0xff, secret_of = recovered shares\<rparr>"
    using st4 sec by (cases st4) (simp add: run_deferred_def erase_replicate)
  show ?thesis
    unfolding RecoverSecret_run_def Let_def
    using n sz a0 sl cu rl sec fin
    by (simp add: MinShares_def MaxShares_def MinShareBytes_def MaxShareBytes_def
        MinSecretBytes_def MaxSecretBytes_def)
qed

subsection \<open>Generation\<close>

definition share_index :: "nat \<Rightarrow> byte" where
  "share_index k = of_nat (k + 1)"

lemma init_shares_upt:
  assumes "length sh = n" "k \<le> n"
  shows "init_shares sz [k..<n] sh
         = Some (take k sh @ map (\<lambda>i. share_index i # replicate sz 0) [k..<n])"
  using assms
proof (induction "n - k" arbitrary: k sh)
  case 0
  then show ?case by simp
next
  case (Suc d)
  then have lt: "k < n" by simp
  let ?row = "share_index k # replicate sz 0"
  let ?sh' = "sh[k := ?row]"
  have IH: "init_shares sz [Suc k..<n] ?sh'
            = Some (take (Suc k) ?sh' @ map (\<lambda>i. share_index i # replicate sz 0) [Suc k..<n])"
    by (rule Suc.hyps(1)) (use Suc lt in simp_all)
  have tk: "take (Suc k) ?sh' = take k sh @ [?row]"
    using lt Suc.prems(1) by (simp add: take_Suc_conv_app_nth)
  have step: "init_shares sz (k # [Suc k..<n]) sh = init_shares sz [Suc k..<n] ?sh'"
    using lt Suc.prems(1) by (simp add: at_Some set_at_Some share_index_def)
  show ?case using IH tk step lt by (simp add: upt_conv_Cons)
qed

lemma share_column_upt:
  assumes "length sh = n" "k \<le> n" "\<forall>row\<in>set sh. i + 1 < length row"
  shows "share_column a i [k..<n] sh
         = Some (take k sh @ map (\<lambda>row. row[i + 1 := eval (row ! 0) a]) (drop k sh))"
  using assms
proof (induction "n - k" arbitrary: k sh)
  case 0
  then show ?case by simp
next
  case (Suc d)
  then have lt: "k < n" by simp
  let ?upd = "\<lambda>row. row[i + 1 := eval (row ! 0) a]"
  let ?sh' = "sh[k := ?upd (sh ! k)]"
  have rowk: "i + 1 < length (sh ! k)" using Suc.prems lt by simp
  have inv: "\<forall>row\<in>set ?sh'. i + 1 < length row"
  proof
    fix row assume "row \<in> set ?sh'"
    then have "row = ?upd (sh ! k) \<or> row \<in> set sh"
      using set_update_subset_insert [of sh k "?upd (sh ! k)"] by auto
    then show "i + 1 < length row" using rowk Suc.prems(3) by auto
  qed
  have IH: "share_column a i [Suc k..<n] ?sh'
            = Some (take (Suc k) ?sh' @ map ?upd (drop (Suc k) ?sh'))"
    by (rule Suc.hyps(1)) (use Suc lt inv in simp_all)
  have tk: "take (Suc k) ?sh' = take k sh @ [?upd (sh ! k)]"
    using lt Suc.prems(1) by (simp add: take_Suc_conv_app_nth)
  have dk: "drop k sh = sh ! k # drop (Suc k) sh"
    using lt Suc.prems(1) by (simp add: Cons_nth_drop_Suc)
  have row0: "at (sh ! k) 0 = Some (sh ! k ! 0)" using rowk by (auto simp: at_def)
  have step: "share_column a i (k # [Suc k..<n]) sh = share_column a i [Suc k..<n] ?sh'"
    using lt Suc.prems(1) rowk row0 by (simp add: at_Some set_at_Some)
  show ?case using IH tk dk step lt by (simp add: upt_conv_Cons)
qed

lemma share_column_all:
  assumes "\<forall>row\<in>set sh. i + 1 < length row"
  shows "share_column a i [0..<length sh] sh = Some (map (\<lambda>row. row[i + 1 := eval (row ! 0) a]) sh)"
  using share_column_upt [of sh "length sh" 0 i a] assms by simp

text \<open>
  The coefficients of the polynomial of secret byte \<open>j\<close>: the \<open>j\<close>-th block of the
  tape with the secret byte written over its first cell. The share of index \<open>k\<close> after
  the first \<open>i\<close> columns are filled, out of \<open>m\<close>.
\<close>

definition coeffs :: "byte list \<Rightarrow> byte list \<Rightarrow> nat \<Rightarrow> nat \<Rightarrow> byte list" where
  "coeffs tape secret t j = (take t (drop (j * t) tape))[0 := secret ! j]"

definition partial_share :: "byte list \<Rightarrow> byte list \<Rightarrow> nat \<Rightarrow> nat \<Rightarrow> nat \<Rightarrow> Share" where
  "partial_share tape secret t i k =
     share_index k # map (\<lambda>j. eval (share_index k) (coeffs tape secret t j)) [0..<i]
       @ replicate (length secret - i) 0"

lemma partial_share_step:
  assumes "i < length secret"
  shows "(partial_share tape secret t i k)[i + 1 := eval (partial_share tape secret t i k ! 0)
            (coeffs tape secret t i)] = partial_share tape secret t (Suc i) k"
proof -
  let ?A = "map (\<lambda>j. eval (share_index k) (coeffs tape secret t j)) [0..<i]"
  have len: "length ?A = i" by simp
  have rep: "replicate (length secret - i) (0::byte) = 0 # replicate (length secret - Suc i) 0"
    using assms by (simp add: Suc_diff_Suc flip: replicate_Suc)
  have "(?A @ replicate (length secret - i) 0)[i := v] = ?A @ v # replicate (length secret - Suc i) 0" for v
    using len rep by (simp add: list_update_append)
  then show ?thesis by (simp add: partial_share_def)
qed

lemma create_loop_upt:
  assumes t: "0 < t" "length a = t"
    and i: "i \<le> length secret" "i * t \<le> length tape"
  shows "create_loop secret n (drop (i * t) tape) a [i..<length secret]
           (map (partial_share tape secret t i) [0..<n])
         = (if length tape < length secret * t then Returns (Inl ErrRandRead)
            else Returns (Inr (map (partial_share tape secret t (length secret)) [0..<n])))"
  using assms
proof (induction "length secret - i" arbitrary: i a)
  case 0
  then have "i = length secret" by simp
  then show ?case using "0.prems" by simp
next
  case (Suc d)
  let ?m = "length secret"
  let ?sh = "map (partial_share tape secret t i) [0..<n]"
  have lt: "i < ?m" using Suc.hyps(2) by simp
  show ?case
  proof (cases "length tape < Suc i * t")
    case True
    then have "rand_Read (drop (i * t) tape) a = None"
      using Suc.prems by (simp add: rand_Read_def) 
    moreover have "length tape < ?m * t"
    proof -
      have "Suc i * t \<le> ?m * t" using lt by (intro mult_le_mono1) simp
      then show ?thesis using True by simp
    qed
    ultimately show ?thesis using lt by (simp add: upt_conv_Cons)
  next
    case False
    let ?a1 = "take t (drop (i * t) tape)"
    let ?a2 = "coeffs tape secret t i"
    let ?sh' = "map (partial_share tape secret t (Suc i)) [0..<n]"
    have rr: "rand_Read (drop (i * t) tape) a = Some (?a1, drop (Suc i * t) tape)"
      using False Suc.prems by (simp add: rand_Read_def add.commute)
    have la1: "length ?a1 = t" using False by simp
    have a2: "set_at ?a1 0 (secret ! i) = Some ?a2"
      using la1 Suc.prems(1) by (simp add: set_at_Some coeffs_def)
    have rows: "\<forall>row\<in>set ?sh. i + 1 < length row"
      using lt by (auto simp: partial_share_def)
    have "share_column ?a2 i [0..<length ?sh] ?sh
          = Some (map (\<lambda>row. row[i + 1 := eval (row ! 0) ?a2]) ?sh)"
      by (rule share_column_all) (rule rows)
    moreover have "map (\<lambda>row. row[i + 1 := eval (row ! 0) ?a2]) ?sh = ?sh'"
      using partial_share_step [OF lt] by simp
    ultimately have sc: "share_column ?a2 i [0..<n] ?sh = Some ?sh'" by simp
    have step: "create_loop secret n (drop (i * t) tape) a (i # [Suc i..<?m]) ?sh
                = create_loop secret n (drop (Suc i * t) tape) ?a2 [Suc i..<?m] ?sh'"
      using rr a2 sc lt by (simp add: at_Some)
    have IH: "create_loop secret n (drop (Suc i * t) tape) ?a2 [Suc i..<?m] ?sh'
              = (if length tape < ?m * t then Returns (Inl ErrRandRead)
                 else Returns (Inr (map (partial_share tape secret t ?m) [0..<n])))"
    proof (rule Suc.hyps(1))
      show "d = ?m - Suc i" using Suc.hyps(2) by simp
      show "0 < t" by (rule Suc.prems(1))
      show "length ?a2 = t" using la1 by (simp add: coeffs_def)
      show "Suc i \<le> ?m" using lt by simp
      show "Suc i * t \<le> length tape" using False by simp
    qed
    show ?thesis using step IH lt by (simp add: upt_conv_Cons)
  qed
qed


lemma create_loop_no_coefficients:
  assumes "secret \<noteq> []"
  shows "create_loop secret n tape [] [0..<length secret] sh = Panics"
proof -
  have "[0..<length secret] = 0 # [1..<length secret]"
    using assms by (simp add: upt_conv_Cons)
  moreover have "at secret 0 = Some (secret ! 0)" using assms by (simp add: at_def)
  ultimately show ?thesis by (simp add: rand_Read_def set_at_def)
qed

lemma partial_share_0:
  "partial_share tape secret t 0 k = share_index k # replicate (length secret) 0"
  by (simp add: partial_share_def)

lemma CreateShares_eq:
  "CreateShares tape secret sharesCount threshold =
     (if secret = [] then Returns (Inl ErrSecretRequired)
      else if length secret < 32 then Returns (Inl ErrSecretTooShort)
      else if 65534 < length secret then Returns (Inl ErrSecretTooLarge)
      else if sharesCount < 2 then Returns (Inl ErrTooFewShares)
      else if 255 < sharesCount then Returns (Inl ErrTooManyShares)
      else if sharesCount < threshold then Returns (Inl ErrInvalidThreshold)
      else if threshold \<le> 0 then Panics
      else if length tape < length secret * nat threshold then Returns (Inl ErrRandRead)
      else Returns (Inr (map (partial_share tape secret (nat threshold) (length secret))
                            [0..<nat sharesCount])))"
proof -
  let ?m = "length secret" and ?n = "nat sharesCount" and ?t = "nat threshold"
  let ?sh0 = "map (partial_share tape secret ?t 0) [0..<?n]"
  have init: "init_shares ?m [0..<?n] (replicate ?n []) = Some ?sh0"
    using init_shares_upt [of "replicate ?n []" ?n 0 ?m] by (simp add: partial_share_0)
  have neg: "threshold < 0 \<Longrightarrow> ?thesis"
    unfolding CreateShares_def Let_def
    by (simp add: init MinSecretBytes_def MaxSecretBytes_def MinShares_def MaxShares_def)
  have zero: "threshold = 0 \<Longrightarrow> ?thesis"
    unfolding CreateShares_def Let_def
    by (simp add: init create_loop_no_coefficients
        MinSecretBytes_def MaxSecretBytes_def MinShares_def MaxShares_def)
  have pos: ?thesis if "0 < threshold"
  proof -
    have "create_loop secret ?n (drop (0 * ?t) tape) (replicate ?t 0) [0..<?m] ?sh0
          = (if length tape < ?m * ?t then Returns (Inl ErrRandRead)
             else Returns (Inr (map (partial_share tape secret ?t ?m) [0..<?n])))"
      by (rule create_loop_upt) (use that in simp_all)
    then show ?thesis
      unfolding CreateShares_def Let_def using that
      by (simp add: init MinSecretBytes_def MaxSecretBytes_def MinShares_def MaxShares_def)
  qed
  show ?thesis using neg zero pos by linarith
qed

section \<open>Claims about the field engine\<close>

text \<open>
  C8 (as amended). The antilog table \<open>expOp\<close> has exactly 510 = 2 * 255 entries: the 255
  powers of the generator, written twice. For all bytes \<open>a\<close>, \<open>b\<close> (in particular the
  nonzero ones, the only ones that reach a lookup) the index \<open>logOp[a]+logOp[b]\<close> of
  \<open>mul\<close> lies in 0..508 and the index \<open>0xff+logOp[a]-logOp[b]\<close> of \<open>div\<close> lies
  in 1..509, both inside the table; the entry found at an index equals the entry at
  that index reduced modulo 255, so the code needs no reduction.
\<close>

theorem expOp_lookups_in_bounds:
  "length expOp = 510
   \<and> 0 \<le> mul_index a b \<and> mul_index a b \<le> 508 \<and> mul_index a b < int (length expOp)
   \<and> 1 \<le> div_index a b \<and> div_index a b \<le> 509 \<and> div_index a b < int (length expOp)
   \<and> expOp ! nat (mul_index a b) = expOp ! (nat (mul_index a b) mod 255)
   \<and> expOp ! nat (div_index a b) = expOp ! (nat (div_index a b) mod 255)"
proof -
  have m: "0 \<le> mul_index a b \<and> mul_index a b \<le> 508" by (rule mul_index_bounds)
  have d: "1 \<le> div_index a b \<and> div_index a b \<le> 509" by (rule div_index_bounds)
  have "nat (mul_index a b) < 510" using m by linarith
  then have pm: "expOp ! nat (mul_index a b) = pw (nat (mul_index a b))" by (rule expOp_pw)
  have "nat (div_index a b) < 510" using d by linarith
  then have pd: "expOp ! nat (div_index a b) = pw (nat (div_index a b))" by (rule expOp_pw)
  show ?thesis using m d pm pd by (simp add: len_expOp pw_def)
qed

text \<open>
  The claim as first stated asks for at least 2 * 255 + 1 = 511 entries; the table has
  one fewer.
\<close>

theorem expOp_has_fewer_than_511_entries: "\<not> (2 * 255 + 1 \<le> length expOp)"
  by (simp add: len_expOp)

text \<open>
  C2. The field arithmetic laws, for all bytes \<open>a\<close> and \<open>b\<close>: addition commutes and
  is its own inverse, multiplication commutes, division by a nonzero byte undoes the
  multiplication by it, and a zero operand of \<open>mul\<close> or a zero divisor gives zero.
\<close>

theorem field_arithmetic_laws:
  "add a b = add b a
   \<and> add a (add a b) = b
   \<and> mul a b = mul b a
   \<and> (b \<noteq> 0 \<longrightarrow> div_gf (mul a b) b = a)
   \<and> mul a 0 = 0
   \<and> div_gf a 0 = 0"
proof -
  have "add a b = add b a" by (simp add: add_def xor.commute)
  moreover have "add a (add a b) = b" by (simp add: add_def flip: xor.assoc)
  moreover have "mul a b = mul b a" by (rule mul_commute)
  moreover have "b \<noteq> 0 \<longrightarrow> div_gf (mul a b) b = a" by (simp add: div_mul_cancel)
  ultimately show ?thesis by simp
qed

theorem field_arithmetic_laws_witness:
  "(0xCA :: byte) \<noteq> 0 \<and> div_gf (mul 0x53 0xCA) 0xCA = 0x53 \<and> mul 0x53 0xCA = mul 0xCA 0x53
   \<and> add 0x53 (add 0x53 0xCA) = 0xCA"
proof -
  have nz: "(0xCA :: byte) \<noteq> 0" by simp
  show ?thesis using nz field_arithmetic_laws [of "0x53" "0xCA"] by blast
qed

section \<open>Claims about recovery\<close>

lemma all_sizes_tl:
  "list_all (\<lambda>i. length (shares ! i) = sz) [1..<length shares]
   \<longleftrightarrow> \<not> list_ex (\<lambda>s. length s \<noteq> sz) (tl shares)"
proof -
  have "(\<forall>i\<in>{1..<length shares}. length (shares ! i) = sz) \<longleftrightarrow> (\<forall>s\<in>set (tl shares). length s = sz)"
  proof
    assume L: "\<forall>i\<in>{1..<length shares}. length (shares ! i) = sz"
    show "\<forall>s\<in>set (tl shares). length s = sz"
    proof
      fix s assume "s \<in> set (tl shares)"
      then obtain i where i: "i < length (tl shares)" "s = tl shares ! i"
        by (auto simp: in_set_conv_nth)
      then have "s = shares ! Suc i" by (simp add: nth_tl)
      moreover have "Suc i \<in> {1..<length shares}" using i(1) by auto
      ultimately show "length s = sz" using L by blast
    qed
  next
    assume R: "\<forall>s\<in>set (tl shares). length s = sz"
    show "\<forall>i\<in>{1..<length shares}. length (shares ! i) = sz"
    proof
      fix i assume "i \<in> {1..<length shares}"
      then have i: "i - 1 < length (tl shares)" "Suc (i - 1) = i" by auto
      then have "shares ! i = tl shares ! (i - 1)" by (metis nth_tl)
      then show "length (shares ! i) = sz" using R i(1) by (metis nth_mem)
    qed
  qed
  then show ?thesis by (simp add: list_all_iff list_ex_iff)
qed

text \<open>The memory of a call that returned before it made a buffer.\<close>

definition untouched :: "ShareSet \<Rightarrow> recover_state" where
  "untouched shares = \<lparr>shares_of = shares, u_of = [], v_of = [], secret_of = []\<rparr>"

lemma RecoverSecret_run_eq:
  "RecoverSecret_run shares =
     (if length shares < 2 then (Returns (Inl ErrTooFewShares), untouched shares)
      else if 255 < length shares then (Returns (Inl ErrTooManyShares), untouched shares)
      else if length (shares ! 0) < 33 \<or> 65535 < length (shares ! 0)
        then (Returns (Inl ErrInvalidShare), untouched shares)
      else if list_ex (\<lambda>s. length s \<noteq> length (shares ! 0)) (tl shares)
        then (Returns (Inl ErrInvalidShare), untouched shares)
      else (Returns (Inr (recovered shares)),
            \<lparr>shares_of = shares, u_of = replicate (length shares) 0xff,
             v_of = replicate (length shares) 0xff, secret_of = recovered shares\<rparr>))"
proof -
  let ?n = "length shares" and ?sz = "length (shares ! 0)"
  have few: ?thesis if "?n < 2"
    using that unfolding RecoverSecret_run_def Let_def
    by (simp add: MinShares_def untouched_def)
  have many: ?thesis if "255 < ?n"
    using that unfolding RecoverSecret_run_def Let_def
    by (simp add: MinShares_def MaxShares_def untouched_def)
  have ok: ?thesis if n: "2 \<le> ?n" "?n \<le> 255"
  proof -
    have a0: "at shares 0 = Some (shares ! 0)" using n by (auto simp: at_def)
    have sl: "sizes_loop shares ?sz [1..<?n]
              = Some (\<not> list_ex (\<lambda>s. length s \<noteq> ?sz) (tl shares))"
    proof -
      have "sizes_loop shares ?sz [1..<?n]
            = Some (list_all (\<lambda>i. length (shares ! i) = ?sz) [1..<?n])"
        by (rule sizes_loop_eq) simp
      then show ?thesis by (simp only: all_sizes_tl)
    qed
    show ?thesis
    proof (cases "?sz < 33 \<or> 65535 < ?sz")
      case True
      then show ?thesis using n a0 unfolding RecoverSecret_run_def Let_def
        by (auto simp: MinShares_def MaxShares_def MinShareBytes_def MaxShareBytes_def
            MinSecretBytes_def MaxSecretBytes_def untouched_def)
    next
      case False
      show ?thesis
      proof (cases "list_ex (\<lambda>s. length s \<noteq> ?sz) (tl shares)")
        case True
        then show ?thesis using n a0 sl False unfolding RecoverSecret_run_def Let_def
          by (simp add: MinShares_def MaxShares_def MinShareBytes_def MaxShareBytes_def
              MinSecretBytes_def MaxSecretBytes_def untouched_def)
      next
        case nomis: False
        have "shares \<noteq> []" using n by auto
        then have "set shares = insert (shares ! 0) (set (tl shares))"
          by (cases shares) simp_all
        then have same: "\<forall>s\<in>set shares. length s = ?sz"
          using nomis by (auto simp: list_ex_iff)
        have "RecoverSecret_run shares =
           (Returns (Inr (recovered shares)),
            \<lparr>shares_of = shares, u_of = replicate ?n 0xff,
             v_of = replicate ?n 0xff, secret_of = recovered shares\<rparr>)"
          by (rule RecoverSecret_run_valid) (use n False same in simp_all)
        then show ?thesis using n False nomis by simp
      qed
    qed
  qed
  show ?thesis using few many ok by linarith
qed

lemma length_recovered: "length (recovered shares) = length (shares ! 0) - 1"
  by (simp add: recovered_def)

text \<open>
  C4. \<open>RecoverSecret\<close> checks its input in this order: fewer than 2 shares give
  \<open>ErrTooFewShares\<close>; more than 255 give \<open>ErrTooManyShares\<close>; a first share shorter
  than 33 or longer than 65535 bytes gives \<open>ErrInvalidShare\<close>; another share of a
  different length gives \<open>ErrInvalidShare\<close>; every other input returns a secret
  (of the share length minus one) and a nil error, and never panics.
\<close>

theorem RecoverSecret_validation_order:
  "RecoverSecret shares =
     (if length shares < 2 then Returns (Inl ErrTooFewShares)
      else if 255 < length shares then Returns (Inl ErrTooManyShares)
      else if length (shares ! 0) < 33 \<or> 65535 < length (shares ! 0)
        then Returns (Inl ErrInvalidShare)
      else if list_ex (\<lambda>s. length s \<noteq> length (shares ! 0)) (tl shares)
        then Returns (Inl ErrInvalidShare)
      else Returns (Inr (recovered shares)))
   \<and> length (recovered shares) = length (shares ! 0) - 1"
  by (simp add: RecoverSecret_def RecoverSecret_run_eq length_recovered)

text \<open>
  One input for each answer; the last is the known-answer vector of the package's test
  \<^verbatim>\<open>TestKat\<close>: two 33-byte shares and the secret they recover.
\<close>

theorem RecoverSecret_validation_order_witness:
  "RecoverSecret [[1, 2, 3]] = Returns (Inl ErrTooFewShares)
   \<and> RecoverSecret (replicate 256 (replicate 33 0)) = Returns (Inl ErrTooManyShares)
   \<and> RecoverSecret [replicate 32 0, replicate 32 0] = Returns (Inl ErrInvalidShare)
   \<and> RecoverSecret [replicate 65536 0, replicate 65536 0] = Returns (Inl ErrInvalidShare)
   \<and> RecoverSecret [replicate 33 0, replicate 34 0] = Returns (Inl ErrInvalidShare)
   \<and> RecoverSecret
        [[0x01, 0x6f, 0xbb, 0x11, 0xa9, 0x26, 0x4b, 0xdf, 0x41, 0x88, 0xe3, 0x91, 0x18, 0x27,
         0xea, 0x30, 0xe2, 0x7a, 0x28, 0x3c, 0xbe, 0xa1, 0x77, 0xd7, 0xc4, 0x21, 0x52, 0x4f,
         0xb4, 0x48, 0xbb, 0xfe, 0xdc],
         [0x02, 0x23, 0x54, 0xd4, 0xa7, 0x88, 0xd3, 0x6e, 0x23, 0x3c, 0x22, 0xd6, 0xe5, 0x4e,
         0x38, 0x65, 0xab, 0xe0, 0x08, 0x80, 0x4d, 0xdd, 0xa2, 0xcd, 0x99, 0x84, 0xd4, 0x39,
         0x3f, 0xb9, 0xf7, 0x40, 0xe6]]
       = Returns (Inr
         [0xa2, 0x17, 0x52, 0x5a, 0xb5, 0xca, 0xb0, 0x96, 0xe4, 0x55, 0xac, 0xba, 0x00, 0xa4,
         0x03, 0x2c, 0x0c, 0xc1, 0xa1, 0xef, 0x7c, 0xcd, 0x28, 0x06, 0x42, 0xd9, 0x94, 0xcd,
         0xee, 0x76, 0x94, 0xca])"
proof -
  have known: "recovered
        [[0x01, 0x6f, 0xbb, 0x11, 0xa9, 0x26, 0x4b, 0xdf, 0x41, 0x88, 0xe3, 0x91, 0x18, 0x27,
         0xea, 0x30, 0xe2, 0x7a, 0x28, 0x3c, 0xbe, 0xa1, 0x77, 0xd7, 0xc4, 0x21, 0x52, 0x4f,
         0xb4, 0x48, 0xbb, 0xfe, 0xdc],
         [0x02, 0x23, 0x54, 0xd4, 0xa7, 0x88, 0xd3, 0x6e, 0x23, 0x3c, 0x22, 0xd6, 0xe5, 0x4e,
         0x38, 0x65, 0xab, 0xe0, 0x08, 0x80, 0x4d, 0xdd, 0xa2, 0xcd, 0x99, 0x84, 0xd4, 0x39,
         0x3f, 0xb9, 0xf7, 0x40, 0xe6]]
       = [0xa2, 0x17, 0x52, 0x5a, 0xb5, 0xca, 0xb0, 0x96, 0xe4, 0x55, 0xac, 0xba, 0x00, 0xa4,
         0x03, 0x2c, 0x0c, 0xc1, 0xa1, 0xef, 0x7c, 0xcd, 0x28, 0x06, 0x42, 0xd9, 0x94, 0xcd,
         0xee, 0x76, 0x94, 0xca]"
    by code_simp
  have "RecoverSecret [[1, 2, 3]] = Returns (Inl ErrTooFewShares)"
    using RecoverSecret_validation_order [of "[[1, 2, 3]]"] by simp
  moreover have "RecoverSecret (replicate 256 (replicate 33 0)) = Returns (Inl ErrTooManyShares)"
    using RecoverSecret_validation_order [of "replicate 256 (replicate 33 0)"] by simp
  moreover have "RecoverSecret [replicate 32 0, replicate 32 0] = Returns (Inl ErrInvalidShare)"
    using RecoverSecret_validation_order [of "[replicate 32 0, replicate 32 0]"] by simp
  moreover have "RecoverSecret [replicate 65536 0, replicate 65536 0] = Returns (Inl ErrInvalidShare)"
    using RecoverSecret_validation_order [of "[replicate 65536 0, replicate 65536 0]"] by simp
  moreover have "RecoverSecret [replicate 33 0, replicate 34 0] = Returns (Inl ErrInvalidShare)"
    using RecoverSecret_validation_order [of "[replicate 33 0, replicate 34 0]"] by simp
  moreover have "RecoverSecret
        [[0x01, 0x6f, 0xbb, 0x11, 0xa9, 0x26, 0x4b, 0xdf, 0x41, 0x88, 0xe3, 0x91, 0x18, 0x27,
         0xea, 0x30, 0xe2, 0x7a, 0x28, 0x3c, 0xbe, 0xa1, 0x77, 0xd7, 0xc4, 0x21, 0x52, 0x4f,
         0xb4, 0x48, 0xbb, 0xfe, 0xdc],
         [0x02, 0x23, 0x54, 0xd4, 0xa7, 0x88, 0xd3, 0x6e, 0x23, 0x3c, 0x22, 0xd6, 0xe5, 0x4e,
         0x38, 0x65, 0xab, 0xe0, 0x08, 0x80, 0x4d, 0xdd, 0xa2, 0xcd, 0x99, 0x84, 0xd4, 0x39,
         0x3f, 0xb9, 0xf7, 0x40, 0xe6]]
       = Returns (Inr
         [0xa2, 0x17, 0x52, 0x5a, 0xb5, 0xca, 0xb0, 0x96, 0xe4, 0x55, 0xac, 0xba, 0x00, 0xa4,
         0x03, 0x2c, 0x0c, 0xc1, 0xa1, 0xef, 0x7c, 0xcd, 0x28, 0x06, 0x42, 0xd9, 0x94, 0xcd,
         0xee, 0x76, 0x94, 0xca])"
    using known RecoverSecret_validation_order
      [of "[[0x01, 0x6f, 0xbb, 0x11, 0xa9, 0x26, 0x4b, 0xdf, 0x41, 0x88, 0xe3, 0x91, 0x18, 0x27,
         0xea, 0x30, 0xe2, 0x7a, 0x28, 0x3c, 0xbe, 0xa1, 0x77, 0xd7, 0xc4, 0x21, 0x52, 0x4f,
         0xb4, 0x48, 0xbb, 0xfe, 0xdc],
         [0x02, 0x23, 0x54, 0xd4, 0xa7, 0x88, 0xd3, 0x6e, 0x23, 0x3c, 0x22, 0xd6, 0xe5, 0x4e,
         0x38, 0x65, 0xab, 0xe0, 0x08, 0x80, 0x4d, 0xdd, 0xa2, 0xcd, 0x99, 0x84, 0xd4, 0x39,
         0x3f, 0xb9, 0xf7, 0x40, 0xe6]]"]
    by simp
  ultimately show ?thesis by simp
qed

text \<open>
  C9. For every share set, the caller's shares hold the same bytes after a call of
  \<open>RecoverSecret\<close> as before it (the call writes only to the buffers it made), and a
  second call on the share set as the first call left it returns the same outcome.
\<close>

theorem RecoverSecret_leaves_shares_unchanged:
  "shares_of (snd (RecoverSecret_run shares)) = shares
   \<and> RecoverSecret_run (shares_of (snd (RecoverSecret_run shares))) = RecoverSecret_run shares
   \<and> RecoverSecret (shares_of (snd (RecoverSecret_run shares))) = RecoverSecret shares"
proof -
  have "shares_of (snd (RecoverSecret_run shares)) = shares"
    by (simp add: RecoverSecret_run_eq untouched_def)
  then show ?thesis by simp
qed

text \<open>
  C5 (as amended). \<open>RecoverSecret\<close> applied to exactly the two 6-byte shares
  \<open>01 B9 FA 07 E1 85\<close> and \<open>02 F5 40 9B 45 11\<close> returns \<open>ErrInvalidShare\<close> and
  no secret, since 6 is below the minimal share length 33. The interpolation that
  recovery is built on, applied to the index bytes 1, 2 and to each of the five payload
  columns, yields \<open>74 65 73 74 00\<close>.
\<close>

theorem known_answer_vector_rejected:
  "RecoverSecret [[0x01, 0xB9, 0xFA, 0x07, 0xE1, 0x85], [0x02, 0xF5, 0x40, 0x9B, 0x45, 0x11]]
     = Returns (Inl ErrInvalidShare)
   \<and> map (interpolate [0x01, 0x02]) [[0xB9, 0xF5], [0xFA, 0x40], [0x07, 0x9B], [0xE1, 0x45], [0x85, 0x11]]
     = map Some [0x74, 0x65, 0x73, 0x74, 0x00]"
proof -
  have "RecoverSecret [[0x01, 0xB9, 0xFA, 0x07, 0xE1, 0x85], [0x02, 0xF5, 0x40, 0x9B, 0x45, 0x11]]
     = Returns (Inl ErrInvalidShare)"
    by (simp add: RecoverSecret_def RecoverSecret_run_eq)
  moreover have "map (interpolate [0x01, 0x02]) [[0xB9, 0xF5], [0xFA, 0x40], [0x07, 0x9B], [0xE1, 0x45], [0x85, 0x11]]
     = map Some [0x74, 0x65, 0x73, 0x74, 0x00]"
    by code_simp
  ultimately show ?thesis by simp
qed

text \<open>The claim as first stated: these two shares recover \<open>74 65 73 74 00\<close>.\<close>

theorem known_answer_vector_not_recovered:
  "RecoverSecret [[0x01, 0xB9, 0xFA, 0x07, 0xE1, 0x85], [0x02, 0xF5, 0x40, 0x9B, 0x45, 0x11]]
     \<noteq> Returns (Inr [0x74, 0x65, 0x73, 0x74, 0x00])"
  by (simp add: RecoverSecret_def RecoverSecret_run_eq)

section \<open>Recovery from shares with a repeated index\<close>

lemma basis_absorb: "basis i u js 0 = 0"
  by (induction js) (simp_all add: basis_def)

lemma basis_duplicate:
  assumes "k \<in> set js" "k \<noteq> i" "u ! k = u ! i"
  shows "basis i u js r = 0"
  using assms(1)
proof (induction js arbitrary: r)
  case Nil
  then show ?case by simp
next
  case (Cons j js)
  show ?case
  proof (cases "j = k")
    case True
    have "div_gf (u ! k) (add (u ! k) (u ! i)) = 0" using assms(3) by (simp add: add_def)
    then have "basis i u (j # js) r = basis i u js 0"
      using True assms(2) by (simp add: basis_def)
    then show ?thesis by (simp add: basis_absorb)
  next
    case False
    then have "k \<in> set js" using Cons.prems by simp
    then have "basis i u js r' = 0" for r' by (rule Cons.IH)
    then show ?thesis by (simp add: basis_def)
  qed
qed

text \<open>
  C7. For every share set of at least 2 and at most 255 shares of one common length in
  33..65535 in which two shares have the same index byte, \<open>RecoverSecret\<close> still
  returns a secret and a nil error. For the two shares, the basis computation divides
  by the sum of the equal indices, which is zero; \<open>div\<close> answers zero, and the basis
  value \<open>poly\<close> of either share is zero: a zero term, no error.
\<close>

theorem RecoverSecret_duplicate_index:
  assumes "2 \<le> length shares" "length shares \<le> 255"
    and "33 \<le> len" "len \<le> 65535"
    and "\<forall>s\<in>set shares. length s = len"
    and "i < length shares" "k < length shares" "i \<noteq> k"
    and "shares ! i ! 0 = shares ! k ! 0"
  shows "(\<exists>secret. RecoverSecret shares = Returns (Inr secret) \<and> length secret = len - 1)
         \<and> div_gf (shares ! k ! 0) (add (shares ! k ! 0) (shares ! i ! 0)) = 0
         \<and> poly i (map (\<lambda>s. s ! 0) shares) = Some 0
         \<and> poly k (map (\<lambda>s. s ! 0) shares) = Some 0"
proof -
  let ?u = "map (\<lambda>s. s ! 0) shares"
  have "shares ! 0 \<in> set shares" by (rule nth_mem) (use assms(1) in linarith)
  then have sz: "length (shares ! 0) = len" using assms(5) by blast
  have "set (tl shares) \<subseteq> set shares" by (cases shares) auto
  then have "\<not> list_ex (\<lambda>s. length s \<noteq> length (shares ! 0)) (tl shares)"
    using assms(5) sz by (auto simp: list_ex_iff)
  then have "RecoverSecret shares = Returns (Inr (recovered shares))"
    using assms(1-4) sz by (simp add: RecoverSecret_def RecoverSecret_run_eq)
  then have ret: "\<exists>secret. RecoverSecret shares = Returns (Inr secret) \<and> length secret = len - 1"
    using sz by (simp add: length_recovered)
  have dz: "div_gf (shares ! k ! 0) (add (shares ! k ! 0) (shares ! i ! 0)) = 0"
    using assms(9) by (simp add: add_def)
  have "basis i ?u [0..<length ?u] 1 = 0"
    by (rule basis_duplicate [of k]) (use assms in simp_all)
  then have pi: "poly i ?u = Some 0" using assms(6) by (simp add: poly_basis)
  have "basis k ?u [0..<length ?u] 1 = 0"
    by (rule basis_duplicate [of i]) (use assms in simp_all)
  then have pk: "poly k ?u = Some 0" using assms(7) by (simp add: poly_basis)
  show ?thesis using ret dz pi pk by simp
qed

theorem RecoverSecret_duplicate_index_witness:
  "(\<exists>secret. RecoverSecret [1 # replicate 32 5, 1 # replicate 32 9] = Returns (Inr secret)
      \<and> length secret = 32)
   \<and> poly 0 [1, 1] = Some 0 \<and> poly 1 [1, 1] = Some 0"
  using RecoverSecret_duplicate_index
    [of "[1 # replicate 32 5, 1 # replicate 32 9]" 33 0 1]
  by simp

section \<open>Claims about generation\<close>

text \<open>
  C3. The claim is that \<open>CreateShares\<close> makes five checks and no other, so that every
  non-empty secret of at most 65534 bytes passes the validation of its length, as the
  package's test \<^verbatim>\<open>testCaseCreateExpect(t, 1, 2, 2, nil)\<close> expects of a one-byte
  secret. The code has a further check between the first two of the claim,
  \<^verbatim>\<open>secretSize < MinSecretBytes\<close>: the one-byte secret with two shares and threshold
  two is answered with \<open>ErrSecretTooShort\<close>, whatever the entropy source holds.
\<close>

theorem CreateShares_rejects_short_secret:
  "CreateShares tape [0x41] 2 2 = Returns (Inl ErrSecretTooShort)"
  by (simp add: CreateShares_eq)

text \<open>
  C6. The claim is that no input makes \<open>CreateShares\<close> or \<open>RecoverSecret\<close> panic.
  \<open>CreateShares\<close> has no lower bound on \<open>threshold\<close>: with a valid secret and
  share count, a threshold of zero panics at \<^verbatim>\<open>a[0] = secret[i]\<close> (the buffer is
  empty) and a negative one at \<^verbatim>\<open>make([]byte, threshold)\<close>, whatever the entropy
  source holds.
\<close>

theorem CreateShares_panics_without_threshold:
  "CreateShares tape (replicate 32 0x41) 3 0 = Panics
   \<and> CreateShares tape (replicate 32 0x41) 3 (- 1) = Panics"
  by (simp add: CreateShares_eq)

lemma eval_single: "eval x [s] = s"
  using mul_1 [of s] by (simp add: eval_def add_def mul_commute)

text \<open>
  C10. For every secret of 32 to 65534 bytes and every share count from 2 to 255,
  \<open>CreateShares\<close> with threshold 1 is not rejected: it returns the shares, each one
  its index byte \<open>k + 1\<close> followed by the secret itself, byte for byte. The only other
  outcome is the error of an entropy source that fails to deliver the one byte asked of
  it per secret byte.
\<close>

theorem CreateShares_threshold_one:
  assumes "32 \<le> length secret" "length secret \<le> 65534"
    and "2 \<le> sharesCount" "sharesCount \<le> 255"
  shows "CreateShares tape secret sharesCount 1 =
           (if length tape < length secret then Returns (Inl ErrRandRead)
            else Returns (Inr (map (\<lambda>k. of_nat (k + 1) # secret) [0..<nat sharesCount])))"
proof -
  have nonempty: "secret \<noteq> []" using assms(1) by auto
  have "coeffs tape secret 1 j = [secret ! j]" if "j < length secret" "length secret \<le> length tape" for j
  proof -
    have "length (take 1 (drop j tape)) = 1" using that by simp
    then have "length (coeffs tape secret 1 j) = 1" by (simp add: coeffs_def)
    then obtain b where b: "coeffs tape secret 1 j = [b]"
      by (auto simp: length_Suc_conv)
    have "coeffs tape secret 1 j ! 0 = secret ! j" using that by (simp add: coeffs_def)
    then show ?thesis using b by simp
  qed
  then have "map (\<lambda>j. eval x (coeffs tape secret 1 j)) [0..<length secret] = secret"
    if "length secret \<le> length tape" for x
    using that by (intro nth_equalityI) (simp_all add: eval_single)
  then have "partial_share tape secret 1 (length secret) k = of_nat (k + 1) # secret"
    if "length secret \<le> length tape" for k
    using that by (simp add: partial_share_def share_index_def)
  then show ?thesis using assms nonempty by (simp add: CreateShares_eq)
qed

theorem CreateShares_threshold_one_witness:
  "CreateShares (replicate 32 7) (replicate 32 0x41) 2 1
     = Returns (Inr [1 # replicate 32 0x41, 2 # replicate 32 0x41])"
  using CreateShares_threshold_one [of "replicate 32 0x41" 2 "replicate 32 7"]
  by (simp add: upt_rec)

section \<open>Polynomials over a field\<close>

text \<open>
  A polynomial is the list of its coefficients, constant term first; \<open>horner\<close> is its
  value. \<open>quot cs r\<close> is the quotient of the division by \<open>x - r\<close>, \<open>padd\<close> the sum.
\<close>

fun horner :: "'a::comm_ring_1 list \<Rightarrow> 'a \<Rightarrow> 'a" where
  "horner [] x = 0"
| "horner (c # cs) x = c + x * horner cs x"

fun quot :: "'a::comm_ring_1 list \<Rightarrow> 'a \<Rightarrow> 'a list" where
  "quot [] r = []"
| "quot [c] r = []"
| "quot (c # d # cs) r = horner (d # cs) r # quot (d # cs) r"

fun padd :: "'a::comm_ring_1 list \<Rightarrow> 'a list \<Rightarrow> 'a list" where
  "padd [] qs = qs"
| "padd ps [] = ps"
| "padd (p # ps) (q # qs) = (p + q) # padd ps qs"

text \<open>A function that is a polynomial with at most \<open>n\<close> coefficients.\<close>

definition is_poly :: "nat \<Rightarrow> ('a::comm_ring_1 \<Rightarrow> 'a) \<Rightarrow> bool" where
  "is_poly n f \<longleftrightarrow> (\<exists>cs. length cs \<le> n \<and> (\<forall>x. f x = horner cs x))"

lemma length_quot: "length (quot cs r) = length cs - 1"
  by (induction cs r rule: quot.induct) simp_all

lemma horner_quot: "horner cs x = horner cs r + (x - r) * horner (quot cs r) x"
proof (induction cs r rule: quot.induct)
  case (3 c d cs r)
  have "horner (c # d # cs) x - horner (c # d # cs) r
        = x * horner (d # cs) x - r * horner (d # cs) r" by simp
  also have "\<dots> = (x - r) * horner (d # cs) r + x * (horner (d # cs) x - horner (d # cs) r)"
    by (simp add: algebra_simps)
  also have "horner (d # cs) x - horner (d # cs) r = (x - r) * horner (quot (d # cs) r) x"
    using "3.IH" by simp
  finally show ?case by (simp add: algebra_simps)
qed simp_all

text \<open>A polynomial that vanishes at as many points as it has coefficients vanishes everywhere.\<close>

lemma root_bound:
  fixes cs :: "'a::idom list"
  assumes "finite S" "length cs \<le> card S" "\<forall>s\<in>S. horner cs s = 0"
  shows "horner cs x = 0"
  using assms
proof (induction "length cs" arbitrary: cs S x)
  case 0
  then show ?case by simp
next
  case (Suc n)
  then have "card S \<noteq> 0" by linarith
  then obtain r where r: "r \<in> S" by fastforce
  let ?q = "quot cs r"
  have fact: "horner cs y = (y - r) * horner ?q y" for y
    using horner_quot [of cs y r] Suc.prems(3) r by simp
  have "horner ?q y = 0" for y
  proof (rule Suc.hyps(1) [of ?q "S - {r}" y])
    show "n = length ?q" using Suc.hyps(2) by (simp add: length_quot)
    show "finite (S - {r})" using Suc.prems(1) by simp
    show "length ?q \<le> card (S - {r})"
      using Suc.prems(1,2) r by (simp add: length_quot)
    show "\<forall>s\<in>S - {r}. horner ?q s = 0"
    proof
      fix s assume s: "s \<in> S - {r}"
      then have "(s - r) * horner ?q s = 0" using fact [of s] Suc.prems(3) by simp
      then show "horner ?q s = 0" using s by simp
    qed
  qed
  then show ?case using fact [of x] by simp
qed

lemma horner_padd: "horner (padd ps qs) x = horner ps x + horner qs x"
  by (induction ps qs rule: padd.induct) (simp_all add: algebra_simps)

lemma length_padd: "length (padd ps qs) = max (length ps) (length qs)"
  by (induction ps qs rule: padd.induct) simp_all

lemma horner_smult: "horner (map ((*) c) ps) x = c * horner ps x"
  by (induction ps) (simp_all add: algebra_simps)

lemma is_poly_zero: "is_poly n (\<lambda>x. 0)"
  unfolding is_poly_def by (rule exI [of _ "[]"]) simp

lemma is_poly_const: "is_poly (Suc 0) (\<lambda>x. c)"
  unfolding is_poly_def by (rule exI [of _ "[c]"]) simp

lemma is_poly_mono: "is_poly n f \<Longrightarrow> n \<le> m \<Longrightarrow> is_poly m f"
  unfolding is_poly_def by (meson le_trans)

lemma is_poly_horner: "length cs \<le> n \<Longrightarrow> is_poly n (horner cs)"
  unfolding is_poly_def by blast

lemma is_poly_add:
  assumes "is_poly n f" "is_poly n g"
  shows "is_poly n (\<lambda>x. f x + g x)"
proof -
  obtain ps qs where ps: "length ps \<le> n" "\<forall>x. f x = horner ps x"
    and qs: "length qs \<le> n" "\<forall>x. g x = horner qs x"
    using assms unfolding is_poly_def by blast
  have "length (padd ps qs) \<le> n" using ps(1) qs(1) by (simp add: length_padd)
  moreover have "\<forall>x. f x + g x = horner (padd ps qs) x"
    using ps(2) qs(2) by (simp add: horner_padd)
  ultimately show ?thesis unfolding is_poly_def by blast
qed

lemma is_poly_smult:
  assumes "is_poly n f"
  shows "is_poly n (\<lambda>x. c * f x)"
proof -
  obtain ps where ps: "length ps \<le> n" "\<forall>x. f x = horner ps x"
    using assms unfolding is_poly_def by blast
  have "length (map ((*) c) ps) \<le> n" using ps(1) by simp
  moreover have "\<forall>x. c * f x = horner (map ((*) c) ps) x"
    using ps(2) by (simp add: horner_smult)
  ultimately show ?thesis unfolding is_poly_def by blast
qed

lemma is_poly_linear:
  assumes "is_poly n f"
  shows "is_poly (Suc n) (\<lambda>x. (x - a) * f x)"
proof -
  obtain ps where ps: "length ps \<le> n" "\<forall>x. f x = horner ps x"
    using assms unfolding is_poly_def by blast
  let ?qs = "padd (0 # ps) (map ((*) (- a)) ps)"
  have "length ?qs \<le> Suc n" using ps(1) by (simp add: length_padd)
  moreover have "\<forall>x. (x - a) * f x = horner ?qs x"
    using ps(2) by (simp add: horner_padd horner_smult algebra_simps)
  ultimately show ?thesis unfolding is_poly_def by blast
qed

lemma is_poly_sum:
  assumes "\<forall>i\<in>I. is_poly n (f i)"
  shows "is_poly n (\<lambda>x. \<Sum>i\<in>I. f i x)"
  using assms
proof (induction I rule: infinite_finite_induct)
  case (infinite A)
  then show ?case by (simp add: is_poly_zero)
next
  case empty
  show ?case by (simp add: is_poly_zero)
next
  case (insert i F)
  then show ?case by (simp add: is_poly_add)
qed

lemma is_poly_prod:
  assumes "finite J"
  shows "is_poly (Suc (card J)) (\<lambda>x. \<Prod>j\<in>J. (x - a j))"
  using assms
proof (induction J rule: finite_induct)
  case empty
  show ?case by (simp add: is_poly_const)
next
  case (insert j F)
  have "is_poly (Suc (Suc (card F))) (\<lambda>x. (x - a j) * (\<Prod>j\<in>F. (x - a j)))"
    by (rule is_poly_linear) (rule insert.IH)
  then show ?case using insert.hyps by simp
qed

lemma is_poly_root_bound:
  fixes f :: "'a::idom \<Rightarrow> 'a"
  assumes "is_poly n f" "finite S" "n \<le> card S" "\<forall>s\<in>S. f s = 0"
  shows "f x = 0"
proof -
  obtain cs where cs: "length cs \<le> n" "\<forall>x. f x = horner cs x"
    using assms(1) unfolding is_poly_def by blast
  have "horner cs x = 0"
    by (rule root_bound [of S]) (use assms cs in auto)
  then show ?thesis using cs(2) by simp
qed

text \<open>
  Lagrange interpolation at zero: the values of a polynomial at \<open>n\<close> distinct points,
  weighted by the basis values, sum to its constant coefficient, when it has at most
  \<open>n\<close> coefficients.
\<close>

lemma lagrange_at_zero:
  fixes xs :: "'a::field list"
  assumes dist: "distinct xs" and len: "length cs \<le> length xs"
  shows "(\<Sum>i<length xs. (\<Prod>j\<in>{..<length xs} - {i}. xs ! j / (xs ! j - xs ! i)) * horner cs (xs ! i))
         = horner cs 0"
proof -
  let ?n = "length xs"
  let ?J = "\<lambda>i. {..<?n} - {i}"
  let ?den = "\<lambda>i. \<Prod>j\<in>?J i. (xs ! i - xs ! j)"
  let ?L = "\<lambda>i x. (\<Prod>j\<in>?J i. (x - xs ! j)) * inverse (?den i)"
  let ?h = "\<lambda>x. (\<Sum>i\<in>{..<?n}. horner cs (xs ! i) * ?L i x) + (- 1) * horner cs x"
  have den_nz: "?den i \<noteq> 0" if "i < ?n" for i
  proof -
    have "xs ! i - xs ! j \<noteq> 0" if "j \<in> ?J i" for j
      using that \<open>i < ?n\<close> dist by (auto simp: nth_eq_iff_index_eq)
    then show ?thesis by simp
  qed
  have L_poly: "is_poly ?n (?L i)" if "i < ?n" for i
  proof -
    have "card (?J i) = ?n - 1" using that by simp
    then have "Suc (card (?J i)) = ?n" using that by simp
    moreover have "is_poly (Suc (card (?J i))) (\<lambda>x. \<Prod>j\<in>?J i. (x - xs ! j))"
      by (rule is_poly_prod) simp
    ultimately have "is_poly ?n (\<lambda>x. \<Prod>j\<in>?J i. (x - xs ! j))" by simp
    then have "is_poly ?n (\<lambda>x. inverse (?den i) * (\<Prod>j\<in>?J i. (x - xs ! j)))"
      by (rule is_poly_smult)
    then show ?thesis by (simp add: mult.commute)
  qed
  have h_poly: "is_poly ?n ?h"
  proof (rule is_poly_add)
    show "is_poly ?n (\<lambda>x. \<Sum>i\<in>{..<?n}. horner cs (xs ! i) * ?L i x)"
      by (rule is_poly_sum) (auto intro: is_poly_smult L_poly)
    show "is_poly ?n (\<lambda>x. (- 1) * horner cs x)"
      by (rule is_poly_smult) (rule is_poly_horner [OF len])
  qed
  have L_delta: "?L i (xs ! k) = (if i = k then 1 else 0)" if "i < ?n" "k < ?n" for i k
  proof (cases "i = k")
    case True
    then show ?thesis using den_nz [OF that(1)] by simp
  next
    case False
    then have "k \<in> ?J i" using that by simp
    then have "(\<Prod>j\<in>?J i. (xs ! k - xs ! j)) = 0" by (auto intro!: prod_zero)
    then show ?thesis using False by simp
  qed
  have h_root: "?h (xs ! k) = 0" if "k < ?n" for k
  proof -
    have "(\<Sum>i\<in>{..<?n}. horner cs (xs ! i) * ?L i (xs ! k))
          = (\<Sum>i\<in>{..<?n}. horner cs (xs ! i) * (if i = k then 1 else 0))"
      by (rule sum.cong) (use L_delta that in auto)
    also have "\<dots> = (\<Sum>i\<in>{..<?n}. if i = k then horner cs (xs ! k) else 0)"
      by (rule sum.cong) auto
    also have "\<dots> = horner cs (xs ! k)" using that by (simp add: sum.delta)
    finally show ?thesis by simp
  qed
  have "?h 0 = 0"
  proof (rule is_poly_root_bound [OF h_poly, of "set xs"])
    show "finite (set xs)" by simp
    show "?n \<le> card (set xs)" using dist by (simp add: distinct_card)
    show "\<forall>s\<in>set xs. ?h s = 0" using h_root by (auto simp: in_set_conv_nth)
  qed
  moreover have "?L i 0 = (\<Prod>j\<in>?J i. xs ! j / (xs ! j - xs ! i))" for i
  proof -
    have "?L i 0 = (\<Prod>j\<in>?J i. (0 - xs ! j)) / ?den i" by (simp add: divide_inverse)
    also have "\<dots> = (\<Prod>j\<in>?J i. (0 - xs ! j) / (xs ! i - xs ! j))" by (rule prod_dividef [symmetric])
    also have "\<dots> = (\<Prod>j\<in>?J i. xs ! j / (xs ! j - xs ! i))"
    proof (rule prod.cong)
      fix j
      have "(0 - xs ! j) / (xs ! i - xs ! j) = (- (xs ! j)) / (- (xs ! j - xs ! i))" by simp
      then show "(0 - xs ! j) / (xs ! i - xs ! j) = xs ! j / (xs ! j - xs ! i)"
        by (simp only: minus_divide_divide)
    qed simp
    finally show ?thesis .
  qed
  ultimately have "(\<Sum>i\<in>{..<?n}. horner cs (xs ! i) * (\<Prod>j\<in>?J i. xs ! j / (xs ! j - xs ! i)))
                   = horner cs 0"
    by simp
  then show ?thesis by (simp add: mult.commute)
qed

section \<open>The bytes as a field\<close>

lemma mul_add_distrib_right: "mul (add x y) z = add (mul x z) (mul y z)"
  using mul_add_distrib [of z x y] by (simp add: mul_commute)

text \<open>
  The bytes with \<open>add\<close>, \<open>mul\<close> and \<open>div_gf\<close> form a field; the type \<open>gf256\<close> is a
  copy of the bytes that carries these operations as \<open>+\<close>, \<open>*\<close> and \<open>/\<close>.
\<close>

typedef gf256 = "UNIV :: byte set"
  by simp

setup_lifting type_definition_gf256

instantiation gf256 :: field
begin

lift_definition zero_gf256 :: gf256 is "0 :: byte" .
lift_definition one_gf256 :: gf256 is "1 :: byte" .
lift_definition plus_gf256 :: "gf256 \<Rightarrow> gf256 \<Rightarrow> gf256" is add .
lift_definition minus_gf256 :: "gf256 \<Rightarrow> gf256 \<Rightarrow> gf256" is add .
lift_definition uminus_gf256 :: "gf256 \<Rightarrow> gf256" is "\<lambda>x. x" .
lift_definition times_gf256 :: "gf256 \<Rightarrow> gf256 \<Rightarrow> gf256" is mul .
lift_definition divide_gf256 :: "gf256 \<Rightarrow> gf256 \<Rightarrow> gf256" is div_gf .
lift_definition inverse_gf256 :: "gf256 \<Rightarrow> gf256" is "div_gf 1" .

instance
proof
  fix a b c :: gf256
  show "a + b + c = a + (b + c)" by transfer (simp add: add_def xor.assoc)
  show "a + b = b + a" by transfer (simp add: add_def xor.commute)
  show "0 + a = a" by transfer (simp add: add_def)
  show "- a + a = 0" by transfer (simp add: add_def)
  show "a - b = a + - b" by transfer simp
  show "a * b * c = a * (b * c)" by transfer (rule mul_assoc)
  show "a * b = b * a" by transfer (rule mul_commute)
  show "1 * a = a" by transfer (rule mul_1)
  show "(a + b) * c = a * c + b * c"
    by transfer (rule mul_add_distrib_right)
  show "(0::gf256) \<noteq> 1" by transfer simp
  show "a \<noteq> 0 \<Longrightarrow> inverse a * a = 1" by transfer (rule inv_mul)
  show "a div b = a * inverse b" by transfer (rule div_as_mul)
  show "inverse (0::gf256) = 0" by transfer simp
qed

end

text \<open>The bytes, read as field elements.\<close>

lemma Abs_gf256_eq_iff: "Abs_gf256 a = Abs_gf256 b \<longleftrightarrow> a = b"
  by (simp add: Abs_gf256_inject)

lemma Abs_add: "Abs_gf256 (add a b) = Abs_gf256 a + Abs_gf256 b"
  by (simp add: plus_gf256.abs_eq)

lemma Abs_sub: "Abs_gf256 (add a b) = Abs_gf256 a - Abs_gf256 b"
  by (simp add: minus_gf256.abs_eq)

lemma Abs_mul: "Abs_gf256 (mul a b) = Abs_gf256 a * Abs_gf256 b"
  by (simp add: times_gf256.abs_eq)

lemma Abs_div: "Abs_gf256 (div_gf a b) = Abs_gf256 a / Abs_gf256 b"
  by (simp add: divide_gf256.abs_eq)

lemma Abs_0: "Abs_gf256 0 = 0" by (simp add: zero_gf256_def)
lemma Abs_1: "Abs_gf256 1 = 1" by (simp add: one_gf256_def)

lemma eval_loop_horner:
  "Abs_gf256 (eval_loop x as r xi)
   = Abs_gf256 r + Abs_gf256 xi * horner (map Abs_gf256 as) (Abs_gf256 x)"
  by (induction as arbitrary: r xi) (simp_all add: Abs_add Abs_mul algebra_simps)

lemma eval_horner: "Abs_gf256 (eval x a) = horner (map Abs_gf256 a) (Abs_gf256 x)"
  by (simp add: eval_def eval_loop_horner Abs_0 Abs_1)

lemma basis_prod_list:
  "Abs_gf256 (basis i u js r)
   = Abs_gf256 r * (\<Prod>j\<leftarrow>filter (\<lambda>j. j \<noteq> i) js.
        Abs_gf256 (u ! j) / (Abs_gf256 (u ! j) - Abs_gf256 (u ! i)))"
proof (induction js arbitrary: r)
  case Nil
  show ?case by (simp add: basis_def)
next
  case (Cons j js)
  have step: "basis i u (j # js) r
        = basis i u js (if j \<noteq> i then mul r (div_gf (u ! j) (add (u ! j) (u ! i))) else r)"
    by (simp add: basis_def)
  show ?case unfolding step Cons.IH
    by (simp add: Abs_mul Abs_div Abs_sub mult.assoc)
qed

lemma basis_prod:
  "Abs_gf256 (basis i u [0..<n] 1)
   = (\<Prod>j\<in>{..<n} - {i}. Abs_gf256 (u ! j) / (Abs_gf256 (u ! j) - Abs_gf256 (u ! i)))"
proof -
  let ?g = "\<lambda>j. Abs_gf256 (u ! j) / (Abs_gf256 (u ! j) - Abs_gf256 (u ! i))"
  have "prod ?g (set (filter (\<lambda>j. j \<noteq> i) [0..<n])) = prod_list (map ?g (filter (\<lambda>j. j \<noteq> i) [0..<n]))"
    by (rule prod.distinct_set_conv_list) simp
  moreover have "set (filter (\<lambda>j. j \<noteq> i) [0..<n]) = {..<n} - {i}" by auto
  ultimately show ?thesis by (simp add: basis_prod_list Abs_1)
qed

lemma lagrange0_sum_list:
  "Abs_gf256 (lagrange0 u v is r)
   = Abs_gf256 r + (\<Sum>i\<leftarrow>is. Abs_gf256 (basis i u [0..<length u] 1) * Abs_gf256 (v ! i))"
proof (induction "is" arbitrary: r)
  case Nil
  show ?case by (simp add: lagrange0_def)
next
  case (Cons i "is")
  have step: "lagrange0 u v (i # is) r
        = lagrange0 u v is (add r (mul (basis i u [0..<length u] 1) (v ! i)))"
    by (simp add: lagrange0_def)
  show ?case unfolding step Cons.IH by (simp add: Abs_add Abs_mul add.assoc)
qed

lemma lagrange0_sum:
  "Abs_gf256 (lagrange0 u v [0..<length u] 0)
   = (\<Sum>i<length u. (\<Prod>j\<in>{..<length u} - {i}.
         Abs_gf256 (u ! j) / (Abs_gf256 (u ! j) - Abs_gf256 (u ! i))) * Abs_gf256 (v ! i))"
proof -
  let ?f = "\<lambda>i. Abs_gf256 (basis i u [0..<length u] 1) * Abs_gf256 (v ! i)"
  have "sum ?f (set [0..<length u]) = sum_list (map ?f [0..<length u])"
    by (rule sum.distinct_set_conv_list) simp
  moreover have "set [0..<length u] = {..<length u}" by auto
  ultimately show ?thesis by (simp add: lagrange0_sum_list Abs_0 basis_prod)
qed

text \<open>
  Interpolating the values of a polynomial with fewer coefficients than there are
  distinct points gives back its constant coefficient.
\<close>

lemma lagrange0_eval:
  assumes "distinct u" "length v = length u" "a \<noteq> []" "length a \<le> length u"
    and "\<forall>i<length u. v ! i = eval (u ! i) a"
  shows "lagrange0 u v [0..<length u] 0 = a ! 0"
proof -
  let ?xs = "map Abs_gf256 u" and ?cs = "map Abs_gf256 a"
  have dist: "distinct ?xs"
    using assms(1) by (simp add: distinct_map inj_on_def Abs_gf256_eq_iff)
  have "Abs_gf256 (lagrange0 u v [0..<length u] 0)
        = (\<Sum>i<length u. (\<Prod>j\<in>{..<length u} - {i}.
             Abs_gf256 (u ! j) / (Abs_gf256 (u ! j) - Abs_gf256 (u ! i))) * Abs_gf256 (v ! i))"
    by (rule lagrange0_sum)
  also have "\<dots> = (\<Sum>i<length ?xs. (\<Prod>j\<in>{..<length ?xs} - {i}.
             ?xs ! j / (?xs ! j - ?xs ! i)) * horner ?cs (?xs ! i))"
  proof -
    have "(\<Prod>j\<in>{..<length u} - {i}. Abs_gf256 (u ! j) / (Abs_gf256 (u ! j) - Abs_gf256 (u ! i)))
          = (\<Prod>j\<in>{..<length u} - {i}. ?xs ! j / (?xs ! j - ?xs ! i))" if "i < length u" for i
      by (rule prod.cong) (use that in simp_all)
    moreover have "Abs_gf256 (v ! i) = horner ?cs (?xs ! i)" if "i < length u" for i
      using assms(5) that by (simp add: eval_horner)
    ultimately show ?thesis by simp
  qed
  also have "\<dots> = horner ?cs 0"
    by (rule lagrange_at_zero [OF dist]) (use assms(4) in simp)
  also have "\<dots> = Abs_gf256 (a ! 0)" using assms(3) by (cases a) simp_all
  finally show ?thesis by (simp add: Abs_gf256_eq_iff)
qed

section \<open>Generation followed by recovery\<close>

lemma share_index_inj:
  assumes "k < 255" "k' < 255" "share_index k = share_index k'"
  shows "k = k'"
proof -
  have unat_index: "unat (share_index i) = i + 1" if "i < 255" for i
  proof -
    have "unat (share_index i) = (i + 1) mod 2 ^ LENGTH(8)"
      unfolding share_index_def by (rule unat_of_nat)
    also have "\<dots> = i + 1" using that by simp
    finally show ?thesis .
  qed
  have "k + 1 = unat (share_index k)" using assms(1) by (simp only: unat_index)
  also have "\<dots> = unat (share_index k')" by (simp only: assms(3))
  also have "\<dots> = k' + 1" using assms(2) by (simp only: unat_index)
  finally show ?thesis by simp
qed

lemma length_partial_share: "i \<le> length secret \<Longrightarrow> length (partial_share tape secret t i k) = length secret + 1"
  by (simp add: partial_share_def)

lemma partial_share_index: "partial_share tape secret t i k ! 0 = share_index k"
  by (simp add: partial_share_def)

lemma partial_share_payload:
  "j < length secret \<Longrightarrow>
   partial_share tape secret t (length secret) k ! Suc j
   = eval (share_index k) (coeffs tape secret t j)"
  by (simp add: partial_share_def)

lemma length_coeffs:
  assumes "j < m" "m * t \<le> length tape"
  shows "length (coeffs tape secret t j) = t"
proof -
  have "Suc j * t \<le> m * t" using assms(1) by (intro mult_le_mono1) simp
  then have "j * t + t \<le> length tape" using assms(2) by simp
  then show ?thesis by (simp add: coeffs_def)
qed

lemma coeffs_constant: "coeffs tape secret t j \<noteq> [] \<Longrightarrow> coeffs tape secret t j ! 0 = secret ! j"
  by (simp add: coeffs_def)

lemma CreateShares_Returns:
  assumes "CreateShares tape secret sharesCount threshold = Returns (Inr shares)"
  shows "32 \<le> length secret \<and> length secret \<le> 65534 \<and> 2 \<le> sharesCount \<and> sharesCount \<le> 255
         \<and> 0 < threshold \<and> threshold \<le> sharesCount
         \<and> length secret * nat threshold \<le> length tape
         \<and> shares = map (partial_share tape secret (nat threshold) (length secret)) [0..<nat sharesCount]"
  using assms unfolding CreateShares_eq by (simp split: if_splits)

text \<open>
  C1. Whenever \<open>CreateShares\<close> returns a share set and a nil error for a secret, a
  share count and a threshold (whatever the entropy source delivered), \<open>RecoverSecret\<close>
  applied to any selection of distinct shares of that set, in any order, of size at
  least \<open>max threshold 2\<close>, returns exactly the secret.
\<close>

theorem shares_recover_secret:
  assumes created: "CreateShares tape secret sharesCount threshold = Returns (Inr shares)"
    and sub: "distinct sub" "set sub \<subseteq> set shares"
    and enough: "max threshold 2 \<le> int (length sub)"
  shows "RecoverSecret sub = Returns (Inr secret)"
proof -
  let ?m = "length secret" and ?n = "nat sharesCount" and ?t = "nat threshold"
  let ?N = "length sub"
  let ?ps = "partial_share tape secret ?t ?m"
  let ?u = "map (\<lambda>s. s ! 0) sub"
  note cs = CreateShares_Returns [OF created]
  have m: "32 \<le> ?m" "?m \<le> 65534"
    and tape: "?m * ?t \<le> length tape" and shares: "shares = map ?ps [0..<?n]"
    using cs by simp_all
  have n: "?n \<le> 255" using cs by linarith
  have t: "0 < ?t" "?t \<le> ?N" using cs enough by linarith+
  have N2: "2 \<le> ?N" using enough by simp
  have "\<forall>p<?N. \<exists>k. k < ?n \<and> sub ! p = ?ps k"
  proof (intro allI impI)
    fix p assume "p < ?N"
    then have "sub ! p \<in> set shares" using sub(2) by auto
    then show "\<exists>k. k < ?n \<and> sub ! p = ?ps k" unfolding shares by auto
  qed
  then obtain \<kappa> where \<kappa>: "\<forall>p<?N. \<kappa> p < ?n \<and> sub ! p = ?ps (\<kappa> p)" by metis
  have len: "length s = ?m + 1" if "s \<in> set sub" for s
  proof -
    have "s \<in> set shares" using that sub(2) by auto
    then show ?thesis unfolding shares by (auto simp: length_partial_share)
  qed
  have N255: "?N \<le> 255"
  proof -
    have "?N = card (set sub)" using sub(1) by (simp add: distinct_card)
    also have "\<dots> \<le> card (set shares)" by (rule card_mono) (use sub(2) in simp_all)
    also have "\<dots> \<le> length shares" by (rule card_length)
    also have "\<dots> = ?n" by (simp add: shares)
    finally show ?thesis using n by simp
  qed
  have "0 < ?N" using N2 by linarith
  then have "sub ! 0 \<in> set sub" by (rule nth_mem)
  then have first: "length (sub ! 0) = ?m + 1" by (rule len)
  have "set (tl sub) \<subseteq> set sub" by (cases sub) auto
  then have same: "\<not> list_ex (\<lambda>s. length s \<noteq> length (sub ! 0)) (tl sub)"
    using len first by (auto simp: list_ex_iff)
  have run: "RecoverSecret sub = Returns (Inr (recovered sub))"
    using N2 N255 first m same by (simp add: RecoverSecret_def RecoverSecret_run_eq)
  have u: "?u ! p = share_index (\<kappa> p)" if "p < ?N" for p
    using that \<kappa> by (simp add: partial_share_index)
  have dist: "distinct ?u"
    unfolding distinct_conv_nth
  proof (intro allI impI)
    fix p q assume pq: "p < length ?u" "q < length ?u" "p \<noteq> q"
    then have "sub ! p \<noteq> sub ! q" using sub(1) by (simp add: nth_eq_iff_index_eq)
    then have "\<kappa> p \<noteq> \<kappa> q" using \<kappa> pq by auto
    moreover have "\<kappa> p < 255" "\<kappa> q < 255" using \<kappa> pq n by (simp_all, force+)
    ultimately have "share_index (\<kappa> p) \<noteq> share_index (\<kappa> q)" using share_index_inj by blast
    then show "?u ! p \<noteq> ?u ! q" using u pq by simp
  qed
  have byte: "recovered_byte sub j = secret ! j" if j: "j < ?m" for j
  proof -
    let ?a = "coeffs tape secret ?t j"
    let ?v = "map (\<lambda>s. s ! (j + 1)) sub"
    have la: "length ?a = ?t" by (rule length_coeffs [OF j tape])
    then have ne: "?a \<noteq> []" using t(1) by auto
    have "lagrange0 ?u ?v [0..<length ?u] 0 = ?a ! 0"
    proof (rule lagrange0_eval [OF dist])
      show "length ?v = length ?u" by simp
      show "?a \<noteq> []" by (rule ne)
      show "length ?a \<le> length ?u" using la t(2) by simp
      show "\<forall>i<length ?u. ?v ! i = eval (?u ! i) ?a"
        using \<kappa> j by (simp add: partial_share_index partial_share_payload)
    qed
    then show ?thesis using ne by (simp add: recovered_byte_def coeffs_constant)
  qed
  have "recovered sub = map (\<lambda>j. secret ! j) [0..<?m]"
    unfolding recovered_def first by (rule map_cong) (use byte in simp_all)
  also have "\<dots> = secret" by (rule map_nth)
  finally show ?thesis using run by simp
qed

theorem shares_recover_secret_witness:
  "CreateShares (replicate 64 7) (replicate 32 0x41) 3 2
     = Returns (Inr [1 # replicate 32 70, 2 # replicate 32 79, 3 # replicate 32 72])
   \<and> RecoverSecret [3 # replicate 32 72, 1 # replicate 32 70] = Returns (Inr (replicate 32 0x41))"
proof -
  have "map (partial_share (replicate 64 7) (replicate 32 0x41) 2 32) [0..<3]
        = [1 # replicate 32 70, 2 # replicate 32 79, 3 # replicate 32 72]"
    by code_simp
  then have created: "CreateShares (replicate 64 7) (replicate 32 0x41) 3 2
     = Returns (Inr [1 # replicate 32 70, 2 # replicate 32 79, 3 # replicate 32 72])"
    by (simp add: CreateShares_eq)
  have "RecoverSecret [3 # replicate 32 72, 1 # replicate 32 70] = Returns (Inr (replicate 32 0x41))"
    by (rule shares_recover_secret [OF created]) simp_all
  then show ?thesis using created by simp
qed

end
